theory Spec2Isabelle
  imports Main "HOL-Library.Char_ord" "HOL-Library.List_Lexorder" "HOL-Library.Multiset"
begin

section \<open>Strings and JavaScript truthiness\<close>

text \<open>
  Strings are lists of characters; a character stands for a code unit in the range
  U+0000 .. U+00FF. An optional field of a JavaScript object is an \<open>option\<close>:
  \<open>None\<close> is \<open>undefined\<close> (or \<open>null\<close>). A string is truthy when it is present and
  not empty.
\<close>

definition truthy :: "string option \<Rightarrow> bool" where
  "truthy v = (case v of None \<Rightarrow> False | Some s \<Rightarrow> s \<noteq> [])"

text \<open>The class \<open>\s\<close> of regular expressions, which is also what \<open>trim\<close> removes:
  TAB, LF, VT, FF, CR, SPACE and NO-BREAK SPACE in this range of code units.\<close>

definition isSpace :: "char \<Rightarrow> bool" where
  "isSpace c = (let n = (of_char c :: nat) in (9 \<le> n \<and> n \<le> 13) \<or> n = 32 \<or> n = 160)"

definition trim :: "string \<Rightarrow> string" where
  "trim s = rev (dropWhile isSpace (rev (dropWhile isSpace s)))"

text \<open>\<open>String.prototype.toLowerCase\<close>, one code unit at a time: the ASCII capitals and the
  Latin-1 capitals (U+00C0 .. U+00DE without the multiplication sign U+00D7) move up
  by 32.\<close>

definition toLowerChar :: "char \<Rightarrow> char" where
  "toLowerChar c =
     (let n = (of_char c :: nat)
      in if (65 \<le> n \<and> n \<le> 90) \<or> (192 \<le> n \<and> n \<le> 222 \<and> n \<noteq> 215)
         then char_of (n + 32) else c)"

definition toLowerCase :: "string \<Rightarrow> string" where
  "toLowerCase s = map toLowerChar s"

text \<open>\<open>s.startsWith(t)\<close> and \<open>s.includes(t)\<close> (called \<open>includesStr\<close>).\<close>

fun startsWith :: "string \<Rightarrow> string \<Rightarrow> bool" where
  "startsWith s [] = True"
| "startsWith [] (c # t) = False"
| "startsWith (d # s) (c # t) = (d = c \<and> startsWith s t)"

fun includesStr :: "string \<Rightarrow> string \<Rightarrow> bool" where
  "includesStr [] t = (t = [])"
| "includesStr (d # s) t = (startsWith (d # s) t \<or> includesStr s t)"

section \<open>The data model\<close>

text \<open>
  The \<open>value\<close> document of a post record, with the fields the cache, the category query
  and the projection read. Every field may be missing.
\<close>

record postValue =
  title :: "string option"
  shortDescription :: "string option"
  content :: "string option"
  slug :: "string option"
  category :: "string option"
  tags :: "string list option"
  publishedAt :: "string option"
  recommended :: "bool option"

text \<open>One record of the store: \<open>{uri, cid, value}\<close>. The field \<open>value\<close> is called
  \<open>val\<close> here.\<close>

record postRecord =
  uri :: string
  cid :: string
  val :: "postValue option"

text \<open>\<open>post?.value?.recommended === true\<close>\<close>

definition isRecommended :: "postRecord \<Rightarrow> bool" where
  "isRecommended post =
     (case val post of None \<Rightarrow> False | Some v \<Rightarrow> recommended v = Some True)"

text \<open>\<open>post?.value?.category\<close>\<close>

definition categoryOf :: "postRecord \<Rightarrow> string option" where
  "categoryOf post = (case val post of None \<Rightarrow> None | Some v \<Rightarrow> category v)"

section \<open>The module state of the writing front end (state.js)\<close>

text \<open>
  The private variables of the module. \<open>uniqueCategories\<close> is a JavaScript \<open>Set\<close>: its
  elements in insertion order, none twice. \<open>requests\<close> is not a variable of the module:
  it logs the list-page calls issued to the store, each with the cursor it passed, so
  that "no call was made" can be stated.
\<close>

record appState =
  fetchedPostsCache :: "postRecord list"
  cursor :: "string option"
  isLoadingMore :: bool
  allPostsLoaded :: bool
  searchTerm :: string
  filterCategory :: string
  sortOrder :: string
  uniqueCategories :: "string list"
  requests :: "string option list"

definition POSTS_PER_PAGE :: nat where
  "POSTS_PER_PAGE = 25"

definition initialState :: appState where
  "initialState =
     \<lparr>fetchedPostsCache = [], cursor = None, isLoadingMore = False, allPostsLoaded = False,
      searchTerm = [], filterCategory = [], sortOrder = ''newest'', uniqueCategories = [],
      requests = []\<rparr>"

definition appendPostsToCache :: "postRecord list \<Rightarrow> appState \<Rightarrow> appState" where
  "appendPostsToCache newPosts s =
     (let existingUris = set (map uri (fetchedPostsCache s));
          postsToAdd = filter (\<lambda>p. uri p \<notin> existingUris) newPosts
      in s\<lparr>fetchedPostsCache := fetchedPostsCache s @ postsToAdd\<rparr>)"

definition resetPostsCacheAndPagination :: "appState \<Rightarrow> appState" where
  "resetPostsCacheAndPagination s =
     s\<lparr>fetchedPostsCache := [], cursor := None, allPostsLoaded := False,
       isLoadingMore := False, uniqueCategories := []\<rparr>"

text \<open>A sequence of \<open>appendPostsToCache\<close> calls, one per batch, in order.\<close>

definition appendAll :: "postRecord list list \<Rightarrow> appState \<Rightarrow> appState" where
  "appendAll batches s = foldl (\<lambda>st batch. appendPostsToCache batch st) s batches"

text \<open>
  The cache update of \<open>handleSavePost\<close> after the store accepted the record: with a record
  key (an update) every entry of the saved record's uri is replaced, without one (a
  creation) the record is put in front; then \<open>allPostsLoaded\<close> is cleared.
\<close>

definition cacheAfterSave :: "string option \<Rightarrow> postRecord \<Rightarrow> appState \<Rightarrow> appState" where
  "cacheAfterSave rkey newRecord s =
     (if truthy rkey
      then s\<lparr>fetchedPostsCache :=
               map (\<lambda>p. if uri p = uri newRecord then newRecord else p) (fetchedPostsCache s),
             allPostsLoaded := False\<rparr>
      else s\<lparr>fetchedPostsCache := newRecord # fetchedPostsCache s,
             allPostsLoaded := False\<rparr>)"

text \<open>
  \<open>updateUniqueCategories\<close>: for each post of the batch, the trimmed category is added to
  the set unless it is empty, is the word "Recommended", or is in the set already.
  (The refresh of the category drop-down that follows is not part of the state.)
\<close>

definition addCategory :: "string list \<Rightarrow> postRecord \<Rightarrow> string list" where
  "addCategory cats post =
     (case categoryOf post of
        None \<Rightarrow> cats
      | Some c \<Rightarrow>
          (let category = trim c
           in if category \<noteq> [] \<and> category \<noteq> ''Recommended'' \<and> category \<notin> set cats
              then cats @ [category] else cats))"

definition updateUniqueCategories :: "postRecord list \<Rightarrow> appState \<Rightarrow> appState" where
  "updateUniqueCategories posts s =
     s\<lparr>uniqueCategories := foldl addCategory (uniqueCategories s) posts\<rparr>"

text \<open>
  \<open>getUniqueCategories\<close>. \<open>Array.prototype.sort\<close> without a comparator orders strings by
  their code units, which is the lexicographic order of \<open>string\<close>.
\<close>

definition getUniqueCategories :: "appState \<Rightarrow> string list" where
  "getUniqueCategories s =
     (let actualCategories = sort (uniqueCategories s);
          hasRecommended = list_ex isRecommended (fetchedPostsCache s)
      in if hasRecommended \<and> ''Recommended'' \<notin> set actualCategories
         then ''Recommended'' # actualCategories
         else actualCategories)"

text \<open>
  What the claim about the category query calls the trimmed actual category values of a
  list of posts: the trimmed \<open>category\<close> of every post that has one, without the empty
  string and without the word "Recommended".
\<close>

definition trimmedCategories :: "postRecord list \<Rightarrow> string list" where
  "trimmedCategories posts =
     filter (\<lambda>c. c \<noteq> [] \<and> c \<noteq> ''Recommended'')
       (concat (map (\<lambda>p. case categoryOf p of None \<Rightarrow> [] | Some c \<Rightarrow> [trim c]) posts))"

text \<open>A sequence of \<open>updateUniqueCategories\<close> calls, one per batch, in order.\<close>

definition updateAll :: "postRecord list list \<Rightarrow> appState \<Rightarrow> appState" where
  "updateAll batches s = foldl (\<lambda>st batch. updateUniqueCategories batch st) s batches"

subsection \<open>Fetching one batch\<close>

text \<open>
  The answer of \<open>api.fetchBlogPostsBatch(limit, cursor)\<close>: it throws an error with a message
  (\<open>Inl\<close>), or returns the records of the page and the next cursor (\<open>Inr\<close>).
\<close>

type_synonym batchResponse = "string + (postRecord list \<times> string option)"

text \<open>
  \<open>fetchAndAppendPosts\<close> suspends once, at the \<open>await\<close> of the request. \<open>beginFetch\<close> is the
  part before it (the flag is set and the request leaves), \<open>completeFetch\<close> the part after
  it (the \<open>try\<close> body or the \<open>catch\<close>, then the \<open>finally\<close>). Between the two the state is the
  one in which a fetch is in flight.
\<close>

definition beginFetch :: "string option \<Rightarrow> appState \<Rightarrow> appState" where
  "beginFetch c s = s\<lparr>isLoadingMore := True, requests := requests s @ [c]\<rparr>"

definition completeFetch :: "batchResponse \<Rightarrow> appState \<Rightarrow> appState" where
  "completeFetch response s =
     (case response of
        Inl message \<Rightarrow> s\<lparr>isLoadingMore := False\<rparr>
      | Inr (batchPosts, newCursor) \<Rightarrow>
          (let s1 = appendPostsToCache batchPosts s;
               s2 = s1\<lparr>cursor := newCursor\<rparr>;
               s3 = updateUniqueCategories batchPosts s2;
               s4 = (if \<not> truthy newCursor \<or> length batchPosts < POSTS_PER_PAGE
                     then s3\<lparr>allPostsLoaded := True\<rparr>
                     else s3\<lparr>allPostsLoaded := False\<rparr>)
           in s4\<lparr>isLoadingMore := False\<rparr>))"

definition fetchAndAppendPosts ::
  "(nat \<Rightarrow> string option \<Rightarrow> batchResponse) \<Rightarrow> string option \<Rightarrow> appState \<Rightarrow> appState" where
  "fetchAndAppendPosts fetchBlogPostsBatch c s =
     (if isLoadingMore s then s
      else completeFetch (fetchBlogPostsBatch POSTS_PER_PAGE c) (beginFetch c s))"

definition handleLoadMore ::
  "(nat \<Rightarrow> string option \<Rightarrow> batchResponse) \<Rightarrow> appState \<Rightarrow> appState" where
  "handleLoadMore fetchBlogPostsBatch s =
     (if allPostsLoaded s \<or> isLoadingMore s then s
      else fetchAndAppendPosts fetchBlogPostsBatch (cursor s) s)"

text \<open>Two records and a value used in the examples.\<close>

definition plainValue :: postValue where
  "plainValue =
     \<lparr>title = Some ''T'', shortDescription = None, content = None, slug = None,
      category = None, tags = None, publishedAt = None, recommended = None\<rparr>"

definition recA :: postRecord where
  "recA = \<lparr>uri = ''at://a'', cid = ''c1'', val = Some plainValue\<rparr>"

definition recB :: postRecord where
  "recB = \<lparr>uri = ''at://b'', cid = ''c2'', val = Some plainValue\<rparr>"

text \<open>Records with categories, and the state after they were fetched as one page.\<close>

definition recTech :: postRecord where
  "recTech = \<lparr>uri = ''at://t'', cid = ''c3'',
      val = Some (plainValue\<lparr>category := Some ''  Tech '', recommended := Some True\<rparr>)\<rparr>"

definition recArt :: postRecord where
  "recArt = \<lparr>uri = ''at://r'', cid = ''c4'', val = Some (plainValue\<lparr>category := Some ''Art''\<rparr>)\<rparr>"

definition recNamedRecommended :: postRecord where
  "recNamedRecommended = \<lparr>uri = ''at://n'', cid = ''c5'',
      val = Some (plainValue\<lparr>category := Some ''Recommended''\<rparr>)\<rparr>"

definition categoryExample :: appState where
  "categoryExample =
     fetchAndAppendPosts (\<lambda>limit c. Inr ([recTech, recNamedRecommended, recArt, recTech], None)) None
       (resetPostsCacheAndPagination initialState)"

section \<open>The slug sanitizer (utils.js)\<close>

text \<open>The class \<open>\w\<close>: the ASCII letters and digits and the underscore.\<close>

definition isWordChar :: "char \<Rightarrow> bool" where
  "isWordChar c =
     (let n = (of_char c :: nat)
      in (48 \<le> n \<and> n \<le> 57) \<or> (65 \<le> n \<and> n \<le> 90) \<or> n = 95 \<or> (97 \<le> n \<and> n \<le> 122))"

text \<open>\<open>.replace(/\s+/g, '-')\<close>: every maximal run of white space becomes one hyphen.\<close>

function replaceSpaceRuns :: "string \<Rightarrow> string" where
  "replaceSpaceRuns [] = []"
| "replaceSpaceRuns (c # cs) =
     (if isSpace c then CHR ''-'' # replaceSpaceRuns (dropWhile isSpace cs)
      else c # replaceSpaceRuns cs)"
  by pat_completeness auto
termination
  by (relation "measure length") (auto simp: length_dropWhile_le less_Suc_eq_le)

text \<open>\<open>.replace(/[^\w-]+/g, '')\<close>: every character that is neither of \<open>\w\<close> nor a hyphen goes.\<close>

definition removeNonWord :: "string \<Rightarrow> string" where
  "removeNonWord s = filter (\<lambda>c. isWordChar c \<or> c = CHR ''-'') s"

text \<open>\<open>.replace(/--+/g, '-')\<close>: every maximal run of two or more hyphens becomes one hyphen.\<close>

function collapseHyphens :: "string \<Rightarrow> string" where
  "collapseHyphens [] = []"
| "collapseHyphens (c # cs) =
     (if c = CHR ''-'' \<and> startsWith cs ''-''
      then CHR ''-'' # collapseHyphens (dropWhile (\<lambda>d. d = CHR ''-'') cs)
      else c # collapseHyphens cs)"
  by pat_completeness auto
termination
  by (relation "measure length") (auto simp: length_dropWhile_le less_Suc_eq_le)

text \<open>\<open>.replace(/^-+|-+$/g, '')\<close>: the hyphens at the start and at the end go.\<close>

definition stripEdgeHyphens :: "string \<Rightarrow> string" where
  "stripEdgeHyphens s =
     rev (dropWhile (\<lambda>d. d = CHR ''-'') (rev (dropWhile (\<lambda>d. d = CHR ''-'') s)))"

text \<open>\<open>sanitizeSlug(inputSlug, final)\<close>; an empty input is falsy and gives the empty string.\<close>

definition sanitizeSlug :: "string \<Rightarrow> bool \<Rightarrow> string" where
  "sanitizeSlug inputSlug final =
     (if inputSlug = [] then []
      else (let slug = collapseHyphens (removeNonWord (replaceSpaceRuns (trim (toLowerCase inputSlug))))
            in if final then stripEdgeHyphens slug else slug))"

text \<open>
  For the proofs: the steps before the final stripping as one function, strings without
  two hyphens in a row, and the strings on which those steps change nothing.
\<close>

definition slugPipeline :: "string \<Rightarrow> string" where
  "slugPipeline x = collapseHyphens (removeNonWord (replaceSpaceRuns (trim (toLowerCase x))))"

definition noDoubleHyphen :: "string \<Rightarrow> bool" where
  "noDoubleHyphen s = (\<not> (\<exists>i. Suc i < length s \<and> s ! i = CHR ''-'' \<and> s ! Suc i = CHR ''-''))"

definition slugClean :: "string \<Rightarrow> bool" where
  "slugClean s =
     (list_all (\<lambda>c. (isWordChar c \<or> c = CHR ''-'') \<and> toLowerChar c = c) s \<and> noDoubleHyphen s)"

section \<open>The filter and sort projection (utils.js)\<close>

text \<open>
  A JavaScript \<open>Date\<close> is its time value, in milliseconds since the epoch; \<open>None\<close> is the
  invalid date. \<open>new Date(text)\<close> is the platform's parser and is a parameter \<open>newDate\<close> of
  the functions below; \<open>new Date(0)\<close> is \<open>Some 0\<close>. \<open>isValid\<close>, \<open>compareAsc\<close> and
  \<open>compareDesc\<close> are the functions of the date-fns library, the latter two on the time
  values of valid dates.
\<close>

type_synonym jsDate = "int option"

definition isValid :: "jsDate \<Rightarrow> bool" where
  "isValid d = (d \<noteq> None)"

definition compareAsc :: "int \<Rightarrow> int \<Rightarrow> int" where
  "compareAsc dateLeft dateRight =
     (let diff = dateLeft - dateRight in if diff < 0 then - 1 else if diff > 0 then 1 else diff)"

definition compareDesc :: "int \<Rightarrow> int \<Rightarrow> int" where
  "compareDesc dateLeft dateRight =
     (let diff = dateLeft - dateRight in if diff > 0 then - 1 else if diff < 0 then 1 else diff)"

text \<open>
  \<open>a?.value?.publishedAt ? new Date(a.value.publishedAt) : new Date(0)\<close>: a missing or
  empty \<open>publishedAt\<close> is falsy and gives the date of time 0.
\<close>

definition publishedDate :: "(string \<Rightarrow> jsDate) \<Rightarrow> postRecord \<Rightarrow> jsDate" where
  "publishedDate newDate a =
     (case val a of
        None \<Rightarrow> Some 0
      | Some v \<Rightarrow>
          (case publishedAt v of
             None \<Rightarrow> Some 0
           | Some text \<Rightarrow> if text \<noteq> [] then newDate text else Some 0))"

text \<open>The comparator of the projection. The sort order is called \<open>order\<close> here.\<close>

definition sortCompareFn :: "(string \<Rightarrow> jsDate) \<Rightarrow> string \<Rightarrow> postRecord \<Rightarrow> postRecord \<Rightarrow> int" where
  "sortCompareFn newDate order a b =
     (let dateA = publishedDate newDate a; dateB = publishedDate newDate b
      in if \<not> isValid dateA \<and> \<not> isValid dateB then 0
         else if \<not> isValid dateA then 1
         else if \<not> isValid dateB then - 1
         else (case (dateA, dateB) of
                 (Some timeA, Some timeB) \<Rightarrow>
                   if order = ''oldest'' then compareAsc timeA timeB
                   else compareDesc timeA timeB
               | _ \<Rightarrow> 0))"

text \<open>
  \<open>Array.prototype.sort(cmp)\<close> is a stable sort: for a comparator that orders its
  arguments consistently the result is the one of inserting the elements, from the last
  to the first, each before the first element it does not come after.
\<close>

fun insertSorted :: "('a \<Rightarrow> 'a \<Rightarrow> int) \<Rightarrow> 'a \<Rightarrow> 'a list \<Rightarrow> 'a list" where
  "insertSorted cmp x [] = [x]"
| "insertSorted cmp x (y # ys) =
     (if cmp x y \<le> 0 then x # y # ys else y # insertSorted cmp x ys)"

definition jsSort :: "('a \<Rightarrow> 'a \<Rightarrow> int) \<Rightarrow> 'a list \<Rightarrow> 'a list" where
  "jsSort cmp xs = foldr (insertSorted cmp) xs []"

text \<open>\<open>p.field?.toLowerCase().includes(lowerSearchTerm)\<close>; a missing field gives a falsy
  value.\<close>

definition fieldIncludes :: "string option \<Rightarrow> string \<Rightarrow> bool" where
  "fieldIncludes field lowerSearchTerm =
     (case field of None \<Rightarrow> False | Some text \<Rightarrow> includesStr (toLowerCase text) lowerSearchTerm)"

definition matchesSearch :: "string \<Rightarrow> postRecord \<Rightarrow> bool" where
  "matchesSearch lowerSearchTerm post =
     (case val post of
        None \<Rightarrow> False
      | Some p \<Rightarrow>
          fieldIncludes (title p) lowerSearchTerm
          \<or> fieldIncludes (shortDescription p) lowerSearchTerm
          \<or> fieldIncludes (content p) lowerSearchTerm
          \<or> fieldIncludes (slug p) lowerSearchTerm
          \<or> fieldIncludes (category p) lowerSearchTerm
          \<or> (case tags p of
                None \<Rightarrow> False
              | Some ts \<Rightarrow> list_ex (\<lambda>tag. includesStr (toLowerCase tag) lowerSearchTerm) ts))"

text \<open>
  The two filters, then the sort. The search term and the category are called
  \<open>searchText\<close> and \<open>categoryName\<close> here; an empty string is falsy and switches its filter
  off.
\<close>

definition filteredPosts :: "postRecord list \<Rightarrow> string \<Rightarrow> string \<Rightarrow> postRecord list" where
  "filteredPosts posts searchText categoryName =
     (let byCategory =
            (if categoryName \<noteq> []
             then (if categoryName = ''Recommended'' then filter isRecommended posts
                   else filter (\<lambda>post. categoryOf post = Some categoryName) posts)
             else posts)
      in if searchText \<noteq> []
         then filter (matchesSearch (toLowerCase searchText)) byCategory
         else byCategory)"

definition getFilteredAndSortedPosts ::
  "(string \<Rightarrow> jsDate) \<Rightarrow> postRecord list \<Rightarrow> string \<Rightarrow> string \<Rightarrow> string \<Rightarrow> postRecord list" where
  "getFilteredAndSortedPosts newDate posts searchText categoryName order =
     jsSort (sortCompareFn newDate order) (filteredPosts posts searchText categoryName)"

text \<open>
  The records of Scenario B, a record whose \<open>publishedAt\<close> does not parse, and a date
  parser that knows the scenario's two dates (midnight UTC) and nothing else.
\<close>

definition scenarioDate :: "string \<Rightarrow> jsDate" where
  "scenarioDate text =
     (if text = ''2024-01-01'' then Some 1704067200000
      else if text = ''2024-06-01'' then Some 1717200000000
      else None)"

definition recJan :: postRecord where
  "recJan = \<lparr>uri = ''at://jan'', cid = ''c6'',
      val = Some (plainValue\<lparr>publishedAt := Some ''2024-01-01''\<rparr>)\<rparr>"

definition recJun :: postRecord where
  "recJun = \<lparr>uri = ''at://jun'', cid = ''c7'',
      val = Some (plainValue\<lparr>publishedAt := Some ''2024-06-01''\<rparr>)\<rparr>"

definition recUndated :: postRecord where
  "recUndated = \<lparr>uri = ''at://none'', cid = ''c8'', val = Some plainValue\<rparr>"

definition recGarbled :: postRecord where
  "recGarbled = \<lparr>uri = ''at://bad'', cid = ''c9'',
      val = Some (plainValue\<lparr>publishedAt := Some ''soon''\<rparr>)\<rparr>"

text \<open>For the proofs: when the comparator is at most 0, in terms of the two dates.\<close>

definition timeOrdered :: "string \<Rightarrow> jsDate \<Rightarrow> jsDate \<Rightarrow> bool" where
  "timeOrdered order d e =
     (case (d, e) of
        (None, None) \<Rightarrow> True
      | (None, Some u) \<Rightarrow> False
      | (Some t, None) \<Rightarrow> True
      | (Some t, Some u) \<Rightarrow> if order = ''oldest'' then t \<le> u else u \<le> t)"

section \<open>The fetch walks\<close>

subsection \<open>The public front end: \<open>fetchAllRecordsForUser\<close> (api.js)\<close>

text \<open>
  What one call of \<open>fetchRecords(did, collection, MAX_LIST_LIMIT, cursor)\<close> does: it throws
  an error with a message (\<open>Inl\<close>), or returns \<open>{records, cursor}\<close> (\<open>Inr\<close>), the cursor
  \<open>None\<close> when the store sent none. The network is a parameter \<open>fetchRecords n c\<close> of the
  walk: the outcome of the \<open>n\<close>-th request of the walk when it passes the cursor \<open>c\<close>
  (owner, collection and limit are the same in every request).
\<close>

type_synonym fetchOutcome = "string + (postRecord list \<times> string option)"

text \<open>
  The local variables of the walk and the caller's category set, which the walk fills in
  place. \<open>served\<close> is not a variable of the source: it logs every request made, the
  cursor it passed and its outcome.
\<close>

record walk =
  allRecords :: "postRecord list"
  pagesFetched :: int
  currentCursor :: "string option"
  accumulatedCategories :: "string list"
  served :: "(string option \<times> fetchOutcome) list"

text \<open>
  \<open>if (record?.value?.category) accumulatedCategories.add(sanitize(record.value.category))\<close>;
  \<open>sanitize\<close> escapes HTML through the DOM and is a parameter.
\<close>

definition addSanitized :: "(string \<Rightarrow> string) \<Rightarrow> string list \<Rightarrow> postRecord \<Rightarrow> string list" where
  "addSanitized sanitize cats record =
     (case categoryOf record of
        None \<Rightarrow> cats
      | Some c \<Rightarrow>
          if c \<noteq> [] \<and> sanitize c \<notin> set cats then cats @ [sanitize c] else cats)"

text \<open>
  The \<open>do ... while (currentCursor)\<close> loop, from the start of one iteration. The first
  component of the result is the message of the error that left the loop, if one did.
\<close>

function fetchLoop ::
  "(int \<Rightarrow> string option \<Rightarrow> fetchOutcome) \<Rightarrow> (string \<Rightarrow> string) \<Rightarrow> int \<Rightarrow> walk
     \<Rightarrow> string option \<times> walk" where
  "fetchLoop fetchRecords sanitize maxPages w =
     (let n = pagesFetched w + 1;
          outcome = fetchRecords n (currentCursor w);
          w1 = w\<lparr>pagesFetched := n, served := served w @ [(currentCursor w, outcome)]\<rparr>
      in case outcome of
           Inl message \<Rightarrow> (Some message, w1)
         | Inr (batchRecords, nextCursor) \<Rightarrow>
             (let w2 = (if length batchRecords > 0
                        then w1\<lparr>allRecords := allRecords w1 @ batchRecords,
                               accumulatedCategories :=
                                 foldl (addSanitized sanitize) (accumulatedCategories w1) batchRecords\<rparr>
                        else w1);
                  w3 = w2\<lparr>currentCursor := nextCursor\<rparr>
              in if \<not> truthy nextCursor then (None, w3)
                 else if n \<ge> maxPages then (None, w3)
                 else fetchLoop fetchRecords sanitize maxPages w3))"
  by pat_completeness auto
termination
  by (relation "measure (\<lambda>(fetchRecords, sanitize, maxPages, w). nat (maxPages - pagesFetched w))")
    (auto split: if_splits)

text \<open>The variables before the loop; the caller's category set is cleared first.\<close>

definition freshWalk :: walk where
  "freshWalk = \<lparr>allRecords = [], pagesFetched = 0, currentCursor = None,
                accumulatedCategories = [], served = []\<rparr>"

text \<open>
  The whole function with its \<open>catch\<close>: the value returned (\<open>Inr\<close>) or the error thrown
  again (\<open>Inl\<close>), and the final variables with the category set and the log.
\<close>

definition fetchAllRecordsForUser ::
  "(int \<Rightarrow> string option \<Rightarrow> fetchOutcome) \<Rightarrow> (string \<Rightarrow> string) \<Rightarrow> int
     \<Rightarrow> (string + postRecord list) \<times> walk" where
  "fetchAllRecordsForUser fetchRecords sanitize maxPages =
     (case fetchLoop fetchRecords sanitize maxPages freshWalk of
        (None, w) \<Rightarrow> (Inr (allRecords w), w)
      | (Some message, w) \<Rightarrow>
          if includesStr message ''Could not list records'' \<or> includesStr message ''Status 400''
          then (Inr [], w)
          else (Inl message, w))"

text \<open>A store of two records that serves one record per page.\<close>

definition shortPageStore :: "int \<Rightarrow> string option \<Rightarrow> fetchOutcome" where
  "shortPageStore n c = (if c = None then Inr ([recA], Some ''c1'') else Inr ([recB], None))"


subsection \<open>The command-line tool: \<open>fetchAllRecords\<close>\<close>

text \<open>
  What one call of \<open>listRecords\<close> does: it throws (\<open>Inl\<close>), or returns a response whose
  \<open>data.records\<close> may be missing and whose cursor may be missing (\<open>Inr\<close>). The loop has no
  bound of its own, so the model counts iterations down from \<open>fuel\<close>: the first component
  of the result is \<open>None\<close> when the fuel ran out before the loop ended. The second
  component is the log of the requests made.
\<close>

type_synonym cliOutcome = "string + (postRecord list option \<times> string option)"

fun fetchAllRecords_loop ::
  "nat \<Rightarrow> (nat \<Rightarrow> string option \<Rightarrow> cliOutcome) \<Rightarrow> nat \<Rightarrow> string option \<Rightarrow> postRecord list
     \<Rightarrow> (string option \<times> cliOutcome) list
     \<Rightarrow> postRecord list option \<times> (string option \<times> cliOutcome) list" where
  "fetchAllRecords_loop 0 listRecords pageNo cur acc log = (None, log)"
| "fetchAllRecords_loop (Suc fuel) listRecords pageNo cur acc log =
     (let res = listRecords pageNo cur;
          log1 = log @ [(cur, res)]
      in case res of
           Inl message \<Rightarrow> (Some [], log1)
         | Inr (None, nextCur) \<Rightarrow> (Some acc, log1)
         | Inr (Some records, nextCur) \<Rightarrow>
             if truthy nextCur
             then fetchAllRecords_loop fuel listRecords (pageNo + 1) nextCur (acc @ records) log1
             else (Some (acc @ records), log1))"

definition fetchAllRecords ::
  "nat \<Rightarrow> (nat \<Rightarrow> string option \<Rightarrow> cliOutcome)
     \<Rightarrow> postRecord list option \<times> (string option \<times> cliOutcome) list" where
  "fetchAllRecords fuel listRecords = fetchAllRecords_loop fuel listRecords 1 None [] []"

text \<open>For the proofs: the variables of \<open>fetchLoop\<close> after an iteration that received a
  page.\<close>

definition afterPage :: "(string \<Rightarrow> string) \<Rightarrow> walk \<Rightarrow> postRecord list \<Rightarrow> string option \<Rightarrow> walk" where
  "afterPage sanitize w batchRecords nextCursor =
     (let w1 = w\<lparr>pagesFetched := pagesFetched w + 1,
                  served := served w @ [(currentCursor w, Inr (batchRecords, nextCursor))]\<rparr>;
          w2 = (if length batchRecords > 0
                then w1\<lparr>allRecords := allRecords w1 @ batchRecords,
                       accumulatedCategories :=
                         foldl (addSanitized sanitize) (accumulatedCategories w1) batchRecords\<rparr>
                else w1)
      in w2\<lparr>currentCursor := nextCursor\<rparr>)"

definition MAX_LIST_LIMIT :: nat where
  "MAX_LIST_LIMIT = 100"

text \<open>Stores for the examples: one whose second page is empty but has a cursor, and
  stores whose second request fails.\<close>

definition emptyPageStore :: "int \<Rightarrow> string option \<Rightarrow> fetchOutcome" where
  "emptyPageStore n c =
     (if n = 1 then Inr ([recA], Some ''c1'')
      else if n = 2 then Inr ([], Some ''c2'')
      else Inr ([recB], None))"

definition failingStore :: "int \<Rightarrow> string option \<Rightarrow> fetchOutcome" where
  "failingStore n c =
     (if n = 1 then Inr ([recA], Some ''c1'') else Inl ''HTTP error! Status: 500 Internal'')"

definition notFoundStore :: "int \<Rightarrow> string option \<Rightarrow> fetchOutcome" where
  "notFoundStore n c =
     (if n = 1 then Inr ([recA], Some ''c1'')
      else Inl ''Could not list records. User may not exist. (Status 400)'')"

definition cliFailingStore :: "nat \<Rightarrow> string option \<Rightarrow> cliOutcome" where
  "cliFailingStore n c =
     (if n = 1 then Inr (Some [recA], Some ''c1'') else Inl ''socket hang up'')"

section \<open>The JSON export\<close>

text \<open>
  Modelled from the spec: the export file is "an array of \<open>{uri, cid, value}\<close> objects,
  pretty-printed", and re-importing it must reproduce the entries. The repository calls
  the runtime's \<open>JSON.stringify(data, null, 2)\<close> and has no code that reads the file back;
  both directions are modelled here. A JSON value is \<open>null\<close>, a boolean, an integral number,
  a string, an array, or an object (its members in order). Numbers with a fraction are
  not modelled.
\<close>

datatype json = JNull | JBool bool | JNum int | JStr string | JArr "json list"
  | JObj "(string \<times> json) list"

definition dquote :: char where "dquote = CHR 0x22"
definition bslash :: char where "bslash = CHR 0x5C"
definition newline :: char where "newline = CHR 0x0A"

text \<open>
  Modelled from the spec: the pretty-printed JSON text of a value, as
  \<open>JSON.stringify(value, null, 2)\<close> writes it. In a string the double quote, the backslash
  and the control characters below U+0020 are escaped; the members of a non-empty array
  or object stand on lines of their own, indented by two spaces per level; an empty
  array is \<open>[]\<close> and an empty object \<open>{}\<close>.
\<close>

definition hexDigit :: "nat \<Rightarrow> char" where
  "hexDigit n = (if n < 10 then char_of (48 + n) else char_of (87 + n))"

definition quoteChar :: "char \<Rightarrow> string" where
  "quoteChar c =
     (let n = (of_char c :: nat)
      in if c = dquote then [bslash, dquote]
         else if c = bslash then [bslash, bslash]
         else if n = 8 then [bslash, CHR ''b'']
         else if n = 12 then [bslash, CHR ''f'']
         else if n = 10 then [bslash, CHR ''n'']
         else if n = 13 then [bslash, CHR ''r'']
         else if n = 9 then [bslash, CHR ''t'']
         else if n < 32 then [bslash, CHR ''u'', CHR ''0'', CHR ''0'', hexDigit (n div 16), hexDigit (n mod 16)]
         else [c])"

definition quoteJSONString :: "string \<Rightarrow> string" where
  "quoteJSONString s = dquote # concat (map quoteChar s) @ [dquote]"

fun showNat :: "nat \<Rightarrow> string" where
  "showNat n = (if n < 10 then [char_of (48 + n)] else showNat (n div 10) @ [char_of (48 + n mod 10)])"

declare showNat.simps [simp del]

definition showInt :: "int \<Rightarrow> string" where
  "showInt i = (if i < 0 then CHR ''-'' # showNat (nat (- i)) else showNat (nat i))"

definition indentBy :: "nat \<Rightarrow> string" where
  "indentBy d = replicate (2 * d) (CHR '' '')"

fun joinWith :: "string \<Rightarrow> string list \<Rightarrow> string" where
  "joinWith sep [] = []"
| "joinWith sep [x] = x"
| "joinWith sep (x # y # ys) = x @ sep @ joinWith sep (y # ys)"

fun serializeJSON :: "nat \<Rightarrow> json \<Rightarrow> string" where
  "serializeJSON d JNull = ''null''"
| "serializeJSON d (JBool b) = (if b then ''true'' else ''false'')"
| "serializeJSON d (JNum i) = showInt i"
| "serializeJSON d (JStr s) = quoteJSONString s"
| "serializeJSON d (JArr xs) =
     (if xs = [] then ''[]''
      else ''['' @ [newline] @ indentBy (Suc d)
           @ joinWith ('','' @ [newline] @ indentBy (Suc d)) (map (serializeJSON (Suc d)) xs)
           @ [newline] @ indentBy d @ '']'')"
| "serializeJSON d (JObj kvs) =
     (if kvs = [] then ''{}''
      else ''{'' @ [newline] @ indentBy (Suc d)
           @ joinWith ('','' @ [newline] @ indentBy (Suc d))
               (map (\<lambda>(k, v). quoteJSONString k @ '': '' @ serializeJSON (Suc d) v) kvs)
           @ [newline] @ indentBy d @ ''}'')"


text \<open>
  Modelled from the spec: re-parsing the JSON text (\<open>JSON.parse\<close>). White space is skipped
  between tokens. The functions that parse nested values count \<open>fuel\<close> down, one for every
  nested call; the result is \<open>None\<close> for a text that is not JSON, and when the fuel runs
  out.
\<close>

definition isWs :: "char \<Rightarrow> bool" where
  "isWs c = (let n = (of_char c :: nat) in n = 32 \<or> n = 10 \<or> n = 13 \<or> n = 9)"

definition skipWs :: "string \<Rightarrow> string" where
  "skipWs s = dropWhile isWs s"

definition isDigit :: "char \<Rightarrow> bool" where
  "isDigit c = (let n = (of_char c :: nat) in 48 \<le> n \<and> n \<le> 57)"

definition readNat :: "string \<Rightarrow> nat" where
  "readNat ds = foldl (\<lambda>a c. 10 * a + (of_char c - 48)) 0 ds"

definition parseNumber :: "string \<Rightarrow> (json \<times> string) option" where
  "parseNumber s =
     (case s of
        [] \<Rightarrow> None
      | c # cs \<Rightarrow>
          if c = CHR ''-''
          then (if takeWhile isDigit cs = [] then None
                else Some (JNum (- int (readNat (takeWhile isDigit cs))), dropWhile isDigit cs))
          else (if takeWhile isDigit s = [] then None
                else Some (JNum (int (readNat (takeWhile isDigit s))), dropWhile isDigit s)))"

definition hexValue :: "char \<Rightarrow> nat option" where
  "hexValue c =
     (let n = (of_char c :: nat)
      in if 48 \<le> n \<and> n \<le> 57 then Some (n - 48)
         else if 97 \<le> n \<and> n \<le> 102 then Some (n - 87)
         else if 65 \<le> n \<and> n \<le> 70 then Some (n - 55)
         else None)"

definition unescape :: "char \<Rightarrow> char option" where
  "unescape e =
     (if e = dquote then Some dquote
      else if e = bslash then Some bslash
      else if e = CHR ''/'' then Some (CHR ''/'')
      else if e = CHR ''b'' then Some (char_of (8 :: nat))
      else if e = CHR ''f'' then Some (char_of (12 :: nat))
      else if e = CHR ''n'' then Some (char_of (10 :: nat))
      else if e = CHR ''r'' then Some (char_of (13 :: nat))
      else if e = CHR ''t'' then Some (char_of (9 :: nat))
      else None)"

definition consChar :: "char \<Rightarrow> (string \<times> string) option \<Rightarrow> (string \<times> string) option" where
  "consChar c r = (case r of None \<Rightarrow> None | Some (str, rest) \<Rightarrow> Some (c # str, rest))"

fun parseChars :: "string \<Rightarrow> (string \<times> string) option" where
  "parseChars [] = None"
| "parseChars (c # cs) =
     (if c = dquote then Some ([], cs)
      else if c = bslash then
        (case cs of
           [] \<Rightarrow> None
         | e # r \<Rightarrow>
             if e = CHR ''u'' then
               (case r of
                  h1 # h2 # h3 # h4 # r' \<Rightarrow>
                    (case (hexValue h1, hexValue h2, hexValue h3, hexValue h4) of
                       (Some a, Some b, Some x, Some y) \<Rightarrow>
                         if a = 0 \<and> b = 0 then consChar (char_of (16 * x + y)) (parseChars r')
                         else None
                     | _ \<Rightarrow> None)
                | _ \<Rightarrow> None)
             else (case unescape e of None \<Rightarrow> None | Some d \<Rightarrow> consChar d (parseChars r)))
      else if (of_char c :: nat) < 32 then None
      else consChar c (parseChars cs))"

fun parseValue :: "nat \<Rightarrow> string \<Rightarrow> (json \<times> string) option"
  and parseElements :: "nat \<Rightarrow> string \<Rightarrow> (json list \<times> string) option"
  and parseMembers :: "nat \<Rightarrow> string \<Rightarrow> ((string \<times> json) list \<times> string) option" where
  "parseValue 0 s = None"
| "parseValue (Suc fuel) s =
     (case skipWs s of
        [] \<Rightarrow> None
      | c # cs \<Rightarrow>
          if c = CHR ''n'' then (if startsWith cs ''ull'' then Some (JNull, drop 3 cs) else None)
          else if c = CHR ''t'' then (if startsWith cs ''rue'' then Some (JBool True, drop 3 cs) else None)
          else if c = CHR ''f'' then (if startsWith cs ''alse'' then Some (JBool False, drop 4 cs) else None)
          else if c = dquote then
            (case parseChars cs of None \<Rightarrow> None | Some (str, rest) \<Rightarrow> Some (JStr str, rest))
          else if c = CHR ''['' then
            (case skipWs cs of
               [] \<Rightarrow> None
             | e # es \<Rightarrow>
                 if e = CHR '']'' then Some (JArr [], es)
                 else (case parseElements fuel (e # es) of
                         None \<Rightarrow> None
                       | Some (xs, rest) \<Rightarrow> Some (JArr xs, rest)))
          else if c = CHR ''{'' then
            (case skipWs cs of
               [] \<Rightarrow> None
             | e # es \<Rightarrow>
                 if e = CHR ''}'' then Some (JObj [], es)
                 else (case parseMembers fuel (e # es) of
                         None \<Rightarrow> None
                       | Some (kvs, rest) \<Rightarrow> Some (JObj kvs, rest)))
          else parseNumber (c # cs))"
| "parseElements 0 s = None"
| "parseElements (Suc fuel) s =
     (case parseValue fuel s of
        None \<Rightarrow> None
      | Some (x, rest) \<Rightarrow>
          (case skipWs rest of
             [] \<Rightarrow> None
           | c # cs \<Rightarrow>
               if c = CHR '','' then
                 (case parseElements fuel cs of
                    None \<Rightarrow> None
                  | Some (xs, rest') \<Rightarrow> Some (x # xs, rest'))
               else if c = CHR '']'' then Some ([x], cs)
               else None))"
| "parseMembers 0 s = None"
| "parseMembers (Suc fuel) s =
     (case skipWs s of
        [] \<Rightarrow> None
      | q # cs \<Rightarrow>
          if q \<noteq> dquote then None
          else (case parseChars cs of
                  None \<Rightarrow> None
                | Some (k, afterKey) \<Rightarrow>
                    (case skipWs afterKey of
                       [] \<Rightarrow> None
                     | colon # afterColon \<Rightarrow>
                         if colon \<noteq> CHR '':'' then None
                         else (case parseValue fuel afterColon of
                                 None \<Rightarrow> None
                               | Some (v, rest) \<Rightarrow>
                                   (case skipWs rest of
                                      [] \<Rightarrow> None
                                    | c # cs' \<Rightarrow>
                                        if c = CHR '','' then
                                          (case parseMembers fuel cs' of
                                             None \<Rightarrow> None
                                           | Some (kvs, rest') \<Rightarrow> Some ((k, v) # kvs, rest'))
                                        else if c = CHR ''}'' then Some ([(k, v)], cs')
                                        else None)))))"

definition parseJSON :: "nat \<Rightarrow> string \<Rightarrow> json option" where
  "parseJSON fuel text =
     (case parseValue fuel text of
        None \<Rightarrow> None
      | Some (v, rest) \<Rightarrow> if skipWs rest = [] then Some v else None)"


text \<open>
  One entry of the export, \<open>{uri: record.uri, cid: record.cid, value: record.value}\<close>. The
  value is written whole, with the fields the typed view \<open>val\<close> does not have, so the
  document of a record is a parameter \<open>valueOf\<close>; \<open>JSON.stringify\<close> leaves an undefined
  value out.
\<close>

definition exportEntry :: "(postRecord \<Rightarrow> json option) \<Rightarrow> postRecord \<Rightarrow> json" where
  "exportEntry valueOf record =
     JObj ([(''uri'', JStr (uri record)), (''cid'', JStr (cid record))]
           @ (case valueOf record of None \<Rightarrow> [] | Some document \<Rightarrow> [(''value'', document)]))"

definition exportData :: "(postRecord \<Rightarrow> json option) \<Rightarrow> postRecord list \<Rightarrow> json" where
  "exportData valueOf records = JArr (map (exportEntry valueOf) records)"

text \<open>
  \<open>exportPosts\<close> of the command-line tool: the text written to the file, \<open>None\<close> when there
  are no records and nothing is written.
\<close>

definition exportPosts :: "(postRecord \<Rightarrow> json option) \<Rightarrow> postRecord list \<Rightarrow> string option" where
  "exportPosts valueOf records =
     (if records = [] then None else Some (serializeJSON 0 (exportData valueOf records)))"

text \<open>
  \<open>handleExport\<close> of the writing front end: the cache, unfiltered, in the current sort
  order, is handed to \<open>triggerJsonExport\<close>, which offers the text for download.
\<close>

definition triggerJsonExport :: "(postRecord \<Rightarrow> json option) \<Rightarrow> postRecord list \<Rightarrow> string" where
  "triggerJsonExport valueOf data = serializeJSON 0 (JArr (map (exportEntry valueOf) data))"

definition handleExport ::
  "(string \<Rightarrow> jsDate) \<Rightarrow> (postRecord \<Rightarrow> json option) \<Rightarrow> appState \<Rightarrow> string option" where
  "handleExport newDate valueOf s =
     (let postsToExport = fetchedPostsCache s
      in if postsToExport = [] then None
         else Some (triggerJsonExport valueOf
                      (getFilteredAndSortedPosts newDate postsToExport [] [] (sortOrder s))))"

text \<open>
  Modelled from the spec: re-importing the export. An entry is read by its \<open>uri\<close>, its
  \<open>cid\<close> and its \<open>value\<close>; the repository has no import of its own.
\<close>

definition readEntry :: "json \<Rightarrow> (string \<times> string \<times> json option) option" where
  "readEntry entry =
     (case entry of
        JObj members \<Rightarrow>
          (case (map_of members ''uri'', map_of members ''cid'') of
             (Some (JStr u), Some (JStr c)) \<Rightarrow> Some (u, c, map_of members ''value'')
           | _ \<Rightarrow> None)
      | _ \<Rightarrow> None)"

definition importEntries :: "nat \<Rightarrow> string \<Rightarrow> (string \<times> string \<times> json option) list option" where
  "importEntries fuel text =
     (case parseJSON fuel text of
        Some (JArr entries) \<Rightarrow>
          (if list_all (\<lambda>e. readEntry e \<noteq> None) entries
           then Some (map (\<lambda>e. the (readEntry e)) entries) else None)
      | _ \<Rightarrow> None)"

text \<open>A value document for the examples: the title, category, tags and flag of \<open>val\<close>.\<close>

definition sampleDocument :: "postRecord \<Rightarrow> json option" where
  "sampleDocument record =
     (case val record of
        None \<Rightarrow> None
      | Some v \<Rightarrow>
          Some (JObj ((case title v of None \<Rightarrow> [] | Some t \<Rightarrow> [(''title'', JStr t)])
                      @ (case category v of None \<Rightarrow> [] | Some c \<Rightarrow> [(''category'', JStr c)])
                      @ (case tags v of None \<Rightarrow> [] | Some ts \<Rightarrow> [(''tags'', JArr (map JStr ts))])
                      @ (case recommended v of None \<Rightarrow> [] | Some b \<Rightarrow> [(''recommended'', JBool b)]))))"

text \<open>
  For the proofs: a text after a number must not go on with a digit; the fuel that is
  enough for a value; the text of one member of an object; and the statement that a value
  printed at depth \<open>d\<close>, after white space and in front of any such text, is parsed back.
\<close>

definition okRest :: "string \<Rightarrow> bool" where
  "okRest rest = (case rest of [] \<Rightarrow> True | c # cs \<Rightarrow> \<not> isDigit c)"

fun need :: "json \<Rightarrow> nat" where
  "need JNull = 1"
| "need (JBool b) = 1"
| "need (JNum i) = 1"
| "need (JStr s) = 1"
| "need (JArr xs) = Suc (length xs + foldr max (map need xs) 0)"
| "need (JObj kvs) = Suc (length kvs + foldr max (map (\<lambda>(k, v). need v) kvs) 0)"

definition valueStart :: "char \<Rightarrow> bool" where
  "valueStart c = (\<not> isWs c \<and> c \<noteq> CHR '']'' \<and> c \<noteq> CHR ''}'')"

definition memberText :: "nat \<Rightarrow> string \<times> json \<Rightarrow> string" where
  "memberText d kv = (case kv of (k, v) \<Rightarrow> quoteJSONString k @ '': '' @ serializeJSON d v)"

definition roundTrips :: "nat \<Rightarrow> json \<Rightarrow> bool" where
  "roundTrips d x =
     (\<forall>fuel pre after. need x \<le> fuel \<longrightarrow> list_all isWs pre \<longrightarrow> okRest after \<longrightarrow>
        parseValue fuel (pre @ serializeJSON d x @ after) = Some (x, after))"

section \<open>The post cache: append\<close>

lemma cache_appendPostsToCache:
  "fetchedPostsCache (appendPostsToCache newPosts s) =
     fetchedPostsCache s @
       filter (\<lambda>p. uri p \<notin> set (map uri (fetchedPostsCache s))) newPosts"
  by (simp add: appendPostsToCache_def)

lemma distinct_map_filter_notin:
  assumes "distinct (map f xs)" and "distinct (map f ys)"
  shows "distinct (map f (xs @ filter (\<lambda>p. f p \<notin> set (map f xs)) ys))"
proof -
  have "distinct (map f (filter (\<lambda>p. f p \<notin> set (map f xs)) ys))"
    using assms(2) by (rule distinct_map_filter)
  moreover have "set (map f xs) \<inter> set (map f (filter (\<lambda>p. f p \<notin> set (map f xs)) ys)) = {}"
    by (auto simp: image_iff)
  ultimately show ?thesis
    using assms(1) by simp
qed

lemma appendPostsToCache_distinct:
  assumes "distinct (map uri (fetchedPostsCache s))" and "distinct (map uri batch)"
  shows "distinct (map uri (fetchedPostsCache (appendPostsToCache batch s)))"
  unfolding cache_appendPostsToCache using assms by (rule distinct_map_filter_notin)

lemma appendAll_distinct:
  assumes "distinct (map uri (fetchedPostsCache s))"
    and "list_all (\<lambda>batch. distinct (map uri batch)) batches"
  shows "distinct (map uri (fetchedPostsCache (appendAll batches s)))"
  using assms
proof (induction batches arbitrary: s)
  case Nil
  then show ?case by (simp add: appendAll_def)
next
  case (Cons batch rest)
  have "distinct (map uri (fetchedPostsCache (appendPostsToCache batch s)))"
    using Cons.prems by (simp add: appendPostsToCache_distinct)
  then have "distinct (map uri (fetchedPostsCache (appendAll rest (appendPostsToCache batch s))))"
    using Cons.IH Cons.prems by simp
  then show ?case by (simp add: appendAll_def)
qed

lemma appendPostsToCache_present:
  assumes "set (map uri newPosts) \<subseteq> set (map uri (fetchedPostsCache s))"
  shows "appendPostsToCache newPosts s = s"
proof -
  have "filter (\<lambda>p. uri p \<notin> set (map uri (fetchedPostsCache s))) newPosts = []"
    using assms by (auto simp: filter_empty_conv)
  then show ?thesis by (simp add: appendPostsToCache_def)
qed

text \<open>
  C3 (as amended). Starting from the empty cache, after any sequence of appends whose
  batches each name no uri twice (the batches may repeat and overlap one another), the
  cache holds no uri twice; and, for any state, appending a batch whose uris are all in
  the cache already leaves the whole state unchanged.
\<close>

theorem append_keeps_uris_unique:
  "(list_all (\<lambda>batch. distinct (map uri batch)) batches \<longrightarrow>
      distinct (map uri (fetchedPostsCache (appendAll batches (resetPostsCacheAndPagination s)))))
   \<and> (set (map uri newPosts) \<subseteq> set (map uri (fetchedPostsCache s)) \<longrightarrow>
      appendPostsToCache newPosts s = s)"
proof (intro conjI impI)
  assume "list_all (\<lambda>batch. distinct (map uri batch)) batches"
  moreover have "distinct (map uri (fetchedPostsCache (resetPostsCacheAndPagination s)))"
    by (simp add: resetPostsCacheAndPagination_def)
  ultimately show
    "distinct (map uri (fetchedPostsCache (appendAll batches (resetPostsCacheAndPagination s))))"
    by (simp add: appendAll_distinct)
next
  assume "set (map uri newPosts) \<subseteq> set (map uri (fetchedPostsCache s))"
  then show "appendPostsToCache newPosts s = s" by (rule appendPostsToCache_present)
qed

theorem append_keeps_uris_unique_witness:
  "list_all (\<lambda>batch. distinct (map uri batch)) [[recA, recB], [recB], [recA, recB]]
   \<and> distinct (map uri (fetchedPostsCache
        (appendAll [[recA, recB], [recB], [recA, recB]] (resetPostsCacheAndPagination initialState))))
   \<and> set (map uri [recB, recB]) \<subseteq> set (map uri (fetchedPostsCache (appendPostsToCache [recA, recB] initialState)))
   \<and> appendPostsToCache [recB, recB] (appendPostsToCache [recA, recB] initialState)
       = appendPostsToCache [recA, recB] initialState"
proof -
  have h1: "list_all (\<lambda>batch. distinct (map uri batch)) [[recA, recB], [recB], [recA, recB]]"
    by (simp add: recA_def recB_def)
  have h2: "set (map uri [recB, recB])
      \<subseteq> set (map uri (fetchedPostsCache (appendPostsToCache [recA, recB] initialState)))"
    by (simp add: appendPostsToCache_def initialState_def recA_def recB_def)
  show ?thesis
    using h1 h2
      append_keeps_uris_unique [of "[[recA, recB], [recB], [recA, recB]]" initialState
        "[recB, recB]"]
      append_keeps_uris_unique [of "[]" "appendPostsToCache [recA, recB] initialState"
        "[recB, recB]"]
    by blast
qed

text \<open>
  A batch that names one uri twice, appended to the empty cache, is stored whole: the
  cache then holds that uri twice.
\<close>

theorem append_duplicate_in_batch:
  "fetchedPostsCache (appendAll [[recA, recA]] (resetPostsCacheAndPagination initialState))
     = [recA, recA]
   \<and> \<not> distinct (map uri (fetchedPostsCache
          (appendAll [[recA, recA]] (resetPostsCacheAndPagination initialState))))"
  by (simp add: appendAll_def appendPostsToCache_def resetPostsCacheAndPagination_def
      initialState_def)

section \<open>The post cache: replace after an update\<close>

lemma cacheAfterSave_update_cache:
  "truthy rkey \<Longrightarrow>
   fetchedPostsCache (cacheAfterSave rkey r s) =
     map (\<lambda>p. if uri p = uri r then r else p) (fetchedPostsCache s)"
  by (simp add: cacheAfterSave_def)

lemma map_replace_absent:
  "k \<notin> set (map f xs) \<Longrightarrow> map (\<lambda>p. if f p = k then r else p) xs = xs"
  by (induction xs) auto

text \<open>
  C5 (as amended). After a successful update (the record key is present) the cache has
  the same length, every position whose entry bore the uri of the saved record holds
  the saved record, and every other position holds what it held; when no entry bears
  that uri the cache is left as it was, and the saved record is not in it.
\<close>

theorem replace_after_update:
  "truthy rkey \<longrightarrow>
     length (fetchedPostsCache (cacheAfterSave rkey r s)) = length (fetchedPostsCache s)
   \<and> (\<forall>i < length (fetchedPostsCache s).
         fetchedPostsCache (cacheAfterSave rkey r s) ! i =
           (if uri (fetchedPostsCache s ! i) = uri r then r else fetchedPostsCache s ! i))
   \<and> (uri r \<notin> set (map uri (fetchedPostsCache s)) \<longrightarrow>
         fetchedPostsCache (cacheAfterSave rkey r s) = fetchedPostsCache s
       \<and> r \<notin> set (fetchedPostsCache (cacheAfterSave rkey r s)))"
proof (intro impI conjI allI)
  assume k: "truthy rkey"
  show "length (fetchedPostsCache (cacheAfterSave rkey r s)) = length (fetchedPostsCache s)"
    using k by (simp add: cacheAfterSave_update_cache)
  show "fetchedPostsCache (cacheAfterSave rkey r s) ! i =
      (if uri (fetchedPostsCache s ! i) = uri r then r else fetchedPostsCache s ! i)"
    if "i < length (fetchedPostsCache s)" for i
    using k that by (simp add: cacheAfterSave_update_cache)
  assume absent: "uri r \<notin> set (map uri (fetchedPostsCache s))"
  show same: "fetchedPostsCache (cacheAfterSave rkey r s) = fetchedPostsCache s"
    using k absent by (simp add: cacheAfterSave_update_cache map_replace_absent)
  show "r \<notin> set (fetchedPostsCache (cacheAfterSave rkey r s))"
    using absent unfolding same by auto
qed

theorem replace_after_update_witness:
  "truthy (Some ''3k'')
   \<and> fetchedPostsCache (cacheAfterSave (Some ''3k'') (recB\<lparr>cid := ''c9''\<rparr>)
        (initialState\<lparr>fetchedPostsCache := [recA, recB]\<rparr>)) = [recA, recB\<lparr>cid := ''c9''\<rparr>]
   \<and> uri recB \<notin> set (map uri (fetchedPostsCache (initialState\<lparr>fetchedPostsCache := [recA]\<rparr>)))
   \<and> fetchedPostsCache (cacheAfterSave (Some ''3k'') recB
        (initialState\<lparr>fetchedPostsCache := [recA]\<rparr>)) = [recA]"
proof -
  have k: "truthy (Some ''3k'')" by (simp add: truthy_def)
  have absent: "uri recB \<notin> set (map uri (fetchedPostsCache (initialState\<lparr>fetchedPostsCache := [recA]\<rparr>)))"
    by (simp add: recA_def recB_def)
  have "fetchedPostsCache (cacheAfterSave (Some ''3k'') recB
        (initialState\<lparr>fetchedPostsCache := [recA]\<rparr>)) = [recA]"
    using k absent
      replace_after_update [of "Some ''3k''" recB "initialState\<lparr>fetchedPostsCache := [recA]\<rparr>"]
    by simp
  moreover have "fetchedPostsCache (cacheAfterSave (Some ''3k'') (recB\<lparr>cid := ''c9''\<rparr>)
        (initialState\<lparr>fetchedPostsCache := [recA, recB]\<rparr>)) = [recA, recB\<lparr>cid := ''c9''\<rparr>]"
    by (simp add: cacheAfterSave_def truthy_def recA_def recB_def)
  ultimately show ?thesis using k absent by simp
qed

text \<open>
  An update whose uri is not in the cache does not insert the record: on the cache that
  holds only \<open>recA\<close>, saving \<open>recB\<close> with a record key leaves \<open>recB\<close> out.
\<close>

theorem replace_absent_not_inserted:
  "uri recB \<notin> set (map uri [recA])
   \<and> recB \<notin> set (fetchedPostsCache (cacheAfterSave (Some ''3k'') recB
        (initialState\<lparr>fetchedPostsCache := [recA]\<rparr>)))"
  by (simp add: cacheAfterSave_def truthy_def recA_def recB_def)

section \<open>One fetch in flight at a time\<close>

text \<open>
  C7. In a state whose loading flag is set, \<open>handleLoadMore\<close> and \<open>fetchAndAppendPosts\<close>
  return the state they were given, whatever the store would answer: no request is
  added to the log and no variable of the module changes.
\<close>

theorem in_flight_is_noop:
  "isLoadingMore s \<Longrightarrow>
     handleLoadMore fetchBlogPostsBatch s = s \<and> fetchAndAppendPosts fetchBlogPostsBatch c s = s"
  by (simp add: handleLoadMore_def fetchAndAppendPosts_def)

theorem in_flight_is_noop_witness:
  "isLoadingMore (beginFetch None initialState)
   \<and> handleLoadMore (\<lambda>limit c. Inr ([recA], Some ''n'')) (beginFetch None initialState)
       = beginFetch None initialState
   \<and> fetchAndAppendPosts (\<lambda>limit c. Inr ([recA], Some ''n'')) (Some ''x'')
       (beginFetch None initialState) = beginFetch None initialState
   \<and> requests (handleLoadMore (\<lambda>limit c. Inr ([recA], Some ''n'')) (beginFetch None initialState))
       = [None]"
proof -
  have h: "isLoadingMore (beginFetch None initialState)"
    by (simp add: beginFetch_def)
  have r: "requests (beginFetch None initialState) = [None]"
    by (simp add: beginFetch_def initialState_def)
  show ?thesis
    using h r
      in_flight_is_noop [OF h, of "\<lambda>limit c. Inr ([recA], Some ''n'')" "Some ''x''"]
    by simp
qed

section \<open>The category query\<close>

lemma trimmedCategories_Nil: "trimmedCategories [] = []"
  by (simp add: trimmedCategories_def)

lemma trimmedCategories_append:
  "trimmedCategories (ps @ qs) = trimmedCategories ps @ trimmedCategories qs"
  by (simp add: trimmedCategories_def)

lemma set_addCategory:
  "set (addCategory cats p) = set cats \<union> set (trimmedCategories [p])"
  by (auto simp: addCategory_def trimmedCategories_def Let_def split: option.splits)

lemma distinct_addCategory: "distinct cats \<Longrightarrow> distinct (addCategory cats p)"
  by (simp add: addCategory_def Let_def split: option.splits)

lemma set_foldl_addCategory:
  "set (foldl addCategory cats posts) = set cats \<union> set (trimmedCategories posts)"
proof (induction posts arbitrary: cats)
  case Nil
  show ?case by (simp add: trimmedCategories_Nil)
next
  case (Cons p posts)
  have "trimmedCategories (p # posts) = trimmedCategories [p] @ trimmedCategories posts"
    using trimmedCategories_append [of "[p]" posts] by simp
  then show ?case
    by (simp add: Cons.IH set_addCategory Un_assoc)
qed

lemma distinct_foldl_addCategory:
  "distinct cats \<Longrightarrow> distinct (foldl addCategory cats posts)"
  by (induction posts arbitrary: cats) (simp_all add: distinct_addCategory)

lemma uniqueCategories_updateAll:
  "uniqueCategories (updateAll batches s) = foldl addCategory (uniqueCategories s) (concat batches)"
proof (induction batches arbitrary: s)
  case Nil
  show ?case by (simp add: updateAll_def)
next
  case (Cons b batches)
  have "updateAll (b # batches) s = updateAll batches (updateUniqueCategories b s)"
    by (simp add: updateAll_def)
  then show ?case
    by (simp add: Cons.IH updateUniqueCategories_def)
qed

lemma Recommended_notin_trimmedCategories: "''Recommended'' \<notin> set (trimmedCategories posts)"
  by (simp add: trimmedCategories_def)

text \<open>
  C10. In every state whose category set was built by \<open>updateUniqueCategories\<close> calls since
  the last reset (nothing else writes the set), whatever the cache holds, the category
  query returns the trimmed actual category values of the fetched posts, each once, in
  lexicographic order, with "Recommended" in front exactly when some cached record has
  \<open>recommended === true\<close>; the word "Recommended" itself is never in the category set.
\<close>

theorem category_query:
  "uniqueCategories s = uniqueCategories (updateAll batches (resetPostsCacheAndPagination s0)) \<longrightarrow>
     getUniqueCategories s =
       (if list_ex isRecommended (fetchedPostsCache s) then [''Recommended''] else [])
         @ sorted_list_of_set (set (trimmedCategories (concat batches)))
     \<and> ''Recommended'' \<notin> set (uniqueCategories s)"
proof (intro impI)
  assume reach: "uniqueCategories s = uniqueCategories (updateAll batches (resetPostsCacheAndPagination s0))"
  let ?cats = "uniqueCategories s"
  have cats: "?cats = foldl addCategory [] (concat batches)"
    unfolding reach uniqueCategories_updateAll by (simp add: resetPostsCacheAndPagination_def)
  have set_cats: "set ?cats = set (trimmedCategories (concat batches))"
    unfolding cats by (simp add: set_foldl_addCategory)
  have dist: "distinct ?cats"
    unfolding cats by (simp add: distinct_foldl_addCategory)
  have no_rec: "''Recommended'' \<notin> set ?cats"
    unfolding set_cats by (rule Recommended_notin_trimmedCategories)
  have sorted_cats: "sort ?cats = sorted_list_of_set (set (trimmedCategories (concat batches)))"
    using dist set_cats by (metis distinct_remdups_id sorted_list_of_set_sort_remdups)
  show "getUniqueCategories s =
       (if list_ex isRecommended (fetchedPostsCache s) then [''Recommended''] else [])
         @ sorted_list_of_set (set (trimmedCategories (concat batches)))
     \<and> ''Recommended'' \<notin> set (uniqueCategories s)"
    using no_rec sorted_cats
    by (simp add: getUniqueCategories_def Let_def Recommended_notin_trimmedCategories)
qed

theorem category_query_witness:
  "uniqueCategories categoryExample
     = uniqueCategories (updateAll [[recTech, recNamedRecommended, recArt, recTech]]
         (resetPostsCacheAndPagination initialState))
   \<and> getUniqueCategories categoryExample = [''Recommended'', ''Art'', ''Tech'']
   \<and> uniqueCategories categoryExample = [''Tech'', ''Art'']"
proof -
  have reach: "uniqueCategories categoryExample
     = uniqueCategories (updateAll [[recTech, recNamedRecommended, recArt, recTech]]
         (resetPostsCacheAndPagination initialState))"
    by code_simp
  have cache: "list_ex isRecommended (fetchedPostsCache categoryExample)"
    by code_simp
  have cats: "sorted_list_of_set (set (trimmedCategories
        (concat [[recTech, recNamedRecommended, recArt, recTech]]))) = [''Art'', ''Tech'']"
    by code_simp
  have "getUniqueCategories categoryExample = [''Recommended'', ''Art'', ''Tech'']"
    using category_query [of categoryExample "[[recTech, recNamedRecommended, recArt, recTech]]" initialState]
      reach cache cats by simp
  moreover have "uniqueCategories categoryExample = [''Tech'', ''Art'']"
    by code_simp
  ultimately show ?thesis using reach by simp
qed

section \<open>The slug sanitizer is idempotent\<close>

lemma toLowerChar_idem: "toLowerChar (toLowerChar c) = toLowerChar c"
proof -
  have "(of_char c :: nat) < 256" by simp
  then show ?thesis
    by (auto simp: toLowerChar_def Let_def)
qed

lemma toLowerChar_hyphen: "toLowerChar (CHR ''-'') = CHR ''-''"
  by (simp add: toLowerChar_def)

lemma word_or_hyphen_not_space: "isWordChar c \<or> c = CHR ''-'' \<Longrightarrow> \<not> isSpace c"
  by (auto simp: isWordChar_def isSpace_def Let_def)

lemma set_replaceSpaceRuns: "set (replaceSpaceRuns s) \<subseteq> insert (CHR ''-'') (set s)"
proof (induction s rule: replaceSpaceRuns.induct)
  case 1
  show ?case by simp
next
  case (2 c cs)
  show ?case
  proof (cases "isSpace c")
    case True
    have "set (dropWhile isSpace cs) \<subseteq> set cs"
      by (auto dest: set_dropWhileD)
    with 2(1) [OF True] True show ?thesis by auto
  next
    case False
    with 2(2) [OF False] show ?thesis by auto
  qed
qed

lemma set_trim: "set (trim s) \<subseteq> set s"
  by (auto simp: trim_def dest!: set_dropWhileD)

lemma set_collapseHyphens: "set (collapseHyphens s) \<subseteq> set s"
proof (induction s rule: collapseHyphens.induct)
  case 1
  show ?case by simp
next
  case (2 c cs)
  show ?case
  proof (cases "c = CHR ''-'' \<and> startsWith cs ''-''")
    case True
    have "set (dropWhile (\<lambda>d. d = CHR ''-'') cs) \<subseteq> set cs"
      by (auto dest: set_dropWhileD)
    with 2(1) [OF True] True show ?thesis by auto
  next
    case False
    with 2(2) [OF False] show ?thesis by auto
  qed
qed

lemma startsWith_hyphen: "startsWith cs ''-'' \<longleftrightarrow> (cs \<noteq> [] \<and> hd cs = CHR ''-'')"
  by (cases cs) auto

lemma collapseHyphens_Nil_iff: "collapseHyphens s = [] \<longleftrightarrow> s = []"
  by (cases s) auto

lemma hd_collapseHyphens: "s \<noteq> [] \<Longrightarrow> hd (collapseHyphens s) = hd s"
  by (cases s) auto

lemma noDoubleHyphen_Cons:
  "noDoubleHyphen (c # s) \<longleftrightarrow>
     (\<not> (c = CHR ''-'' \<and> s \<noteq> [] \<and> hd s = CHR ''-'') \<and> noDoubleHyphen s)"
proof
  assume h: "noDoubleHyphen (c # s)"
  have "\<not> (c = CHR ''-'' \<and> s \<noteq> [] \<and> hd s = CHR ''-'')"
  proof
    assume a: "c = CHR ''-'' \<and> s \<noteq> [] \<and> hd s = CHR ''-''"
    then have "Suc 0 < length (c # s) \<and> (c # s) ! 0 = CHR ''-'' \<and> (c # s) ! Suc 0 = CHR ''-''"
      by (cases s) auto
    with h show False unfolding noDoubleHyphen_def by blast
  qed
  moreover have "noDoubleHyphen s"
    unfolding noDoubleHyphen_def
  proof
    assume "\<exists>i. Suc i < length s \<and> s ! i = CHR ''-'' \<and> s ! Suc i = CHR ''-''"
    then obtain i where "Suc i < length s" "s ! i = CHR ''-''" "s ! Suc i = CHR ''-''" by blast
    then have "Suc (Suc i) < length (c # s) \<and> (c # s) ! Suc i = CHR ''-''
        \<and> (c # s) ! Suc (Suc i) = CHR ''-''" by simp
    with h show False unfolding noDoubleHyphen_def by blast
  qed
  ultimately show "\<not> (c = CHR ''-'' \<and> s \<noteq> [] \<and> hd s = CHR ''-'') \<and> noDoubleHyphen s" by simp
next
  assume h: "\<not> (c = CHR ''-'' \<and> s \<noteq> [] \<and> hd s = CHR ''-'') \<and> noDoubleHyphen s"
  show "noDoubleHyphen (c # s)"
    unfolding noDoubleHyphen_def
  proof
    assume "\<exists>i. Suc i < length (c # s) \<and> (c # s) ! i = CHR ''-'' \<and> (c # s) ! Suc i = CHR ''-''"
    then obtain i where i: "Suc i < length (c # s)" "(c # s) ! i = CHR ''-''"
      "(c # s) ! Suc i = CHR ''-''" by blast
    show False
    proof (cases i)
      case 0
      with i have "c = CHR ''-''" "s \<noteq> []" "hd s = CHR ''-''"
        by (auto simp: hd_conv_nth)
      with h show False by simp
    next
      case (Suc j)
      with i have "Suc j < length s \<and> s ! j = CHR ''-'' \<and> s ! Suc j = CHR ''-''" by simp
      with h show False unfolding noDoubleHyphen_def by blast
    qed
  qed
qed

lemma noDoubleHyphen_Nil: "noDoubleHyphen []"
  by (simp add: noDoubleHyphen_def)

lemma noDoubleHyphen_collapseHyphens: "noDoubleHyphen (collapseHyphens s)"
proof (induction s rule: collapseHyphens.induct)
  case 1
  show ?case by (simp add: noDoubleHyphen_Nil)
next
  case (2 c cs)
  show ?case
  proof (cases "c = CHR ''-'' \<and> startsWith cs ''-''")
    case True
    define rest where "rest = dropWhile (\<lambda>d. d = CHR ''-'') cs"
    have "\<not> (collapseHyphens rest \<noteq> [] \<and> hd (collapseHyphens rest) = CHR ''-'')"
    proof (cases "rest = []")
      case True
      then show ?thesis by simp
    next
      case False
      then have "hd rest \<noteq> CHR ''-''"
        unfolding rest_def by (rule hd_dropWhile)
      with False show ?thesis by (simp add: hd_collapseHyphens)
    qed
    moreover have "noDoubleHyphen (collapseHyphens rest)"
      using 2(1) [OF True] unfolding rest_def .
    moreover have "collapseHyphens (c # cs) = CHR ''-'' # collapseHyphens rest"
      using True unfolding rest_def by simp
    ultimately show ?thesis
      by (simp add: noDoubleHyphen_Cons)
  next
    case False
    then have "\<not> (c = CHR ''-'' \<and> collapseHyphens cs \<noteq> [] \<and> hd (collapseHyphens cs) = CHR ''-'')"
      by (auto simp: collapseHyphens_Nil_iff hd_collapseHyphens startsWith_hyphen)
    moreover have "collapseHyphens (c # cs) = c # collapseHyphens cs"
      using False by auto
    ultimately show ?thesis
      using 2(2) [OF False] by (simp add: noDoubleHyphen_Cons)
  qed
qed

lemma collapseHyphens_id: "noDoubleHyphen s \<Longrightarrow> collapseHyphens s = s"
proof (induction s rule: collapseHyphens.induct)
  case 1
  show ?case by simp
next
  case (2 c cs)
  from 2(3) have a: "\<not> (c = CHR ''-'' \<and> startsWith cs ''-'')" and b: "noDoubleHyphen cs"
    by (auto simp: noDoubleHyphen_Cons startsWith_hyphen)
  have "collapseHyphens (c # cs) = c # collapseHyphens cs"
    using a by auto
  with 2(2) [OF a b] show ?case by simp
qed

lemma replaceSpaceRuns_id: "list_all (\<lambda>c. \<not> isSpace c) s \<Longrightarrow> replaceSpaceRuns s = s"
  by (induction s) auto

lemma dropWhile_none: "list_all (\<lambda>c. \<not> P c) s \<Longrightarrow> dropWhile P s = s"
  by (cases s) auto

lemma trim_id: "list_all (\<lambda>c. \<not> isSpace c) s \<Longrightarrow> trim s = s"
  by (simp add: trim_def dropWhile_none list_all_iff)

lemma noDoubleHyphen_drop: "noDoubleHyphen s \<Longrightarrow> noDoubleHyphen (drop n s)"
proof (induction n arbitrary: s)
  case 0
  then show ?case by simp
next
  case (Suc n)
  show ?case
  proof (cases s)
    case Nil
    then show ?thesis by (simp add: noDoubleHyphen_Nil)
  next
    case (Cons c cs)
    with Suc.prems have "noDoubleHyphen cs" by (simp add: noDoubleHyphen_Cons)
    with Suc.IH Cons show ?thesis by simp
  qed
qed

lemma noDoubleHyphen_take: "noDoubleHyphen s \<Longrightarrow> noDoubleHyphen (take n s)"
  unfolding noDoubleHyphen_def by auto

lemma rev_dropWhile_rev: "rev (dropWhile P (rev t)) = take (length t - length (takeWhile P (rev t))) t"
proof -
  define n where "n = length (takeWhile P (rev t))"
  have "dropWhile P (rev t) = drop n (rev t)"
    unfolding n_def by (rule dropWhile_eq_drop)
  then have "rev (dropWhile P (rev t)) = rev (drop n (rev t))" by simp
  also have "\<dots> = take (length t - n) t" by (simp add: rev_drop)
  finally show ?thesis unfolding n_def .
qed

lemma stripEdgeHyphens_take_drop:
  "\<exists>j k. stripEdgeHyphens s = take k (drop j s)"
proof -
  define t where "t = dropWhile (\<lambda>d. d = CHR ''-'') s"
  have "t = drop (length (takeWhile (\<lambda>d. d = CHR ''-'') s)) s"
    unfolding t_def by (rule dropWhile_eq_drop)
  moreover have "stripEdgeHyphens s = rev (dropWhile (\<lambda>d. d = CHR ''-'') (rev t))"
    unfolding stripEdgeHyphens_def t_def ..
  ultimately show ?thesis
    using rev_dropWhile_rev [of "\<lambda>d. d = CHR ''-''" t] by metis
qed

lemma noDoubleHyphen_stripEdgeHyphens: "noDoubleHyphen s \<Longrightarrow> noDoubleHyphen (stripEdgeHyphens s)"
  using stripEdgeHyphens_take_drop [of s]
  by (auto simp: noDoubleHyphen_take noDoubleHyphen_drop)

lemma set_stripEdgeHyphens: "set (stripEdgeHyphens s) \<subseteq> set s"
  by (auto simp: stripEdgeHyphens_def dest!: set_dropWhileD)

lemma stripEdgeHyphens_idem: "stripEdgeHyphens (stripEdgeHyphens s) = stripEdgeHyphens s"
proof -
  define t where "t = dropWhile (\<lambda>d. d = CHR ''-'') s"
  define u where "u = rev (dropWhile (\<lambda>d. d = CHR ''-'') (rev t))"
  have su: "stripEdgeHyphens s = u"
    unfolding stripEdgeHyphens_def u_def t_def ..
  have u: "u = take (length t - length (takeWhile (\<lambda>d. d = CHR ''-'') (rev t))) t"
    unfolding u_def by (rule rev_dropWhile_rev)
  have front: "dropWhile (\<lambda>d. d = CHR ''-'') u = u"
  proof (cases "u = []")
    case True
    then show ?thesis by simp
  next
    case False
    then have "t \<noteq> []" unfolding u by auto
    then have "hd t \<noteq> CHR ''-''"
      unfolding t_def by (rule hd_dropWhile)
    moreover have "hd u = hd t"
      using False unfolding u by (metis hd_take take_eq_Nil gr0I)
    ultimately show ?thesis
      using False by (simp add: dropWhile_eq_self_iff)
  qed
  have rear: "dropWhile (\<lambda>d. d = CHR ''-'') (rev u) = rev u"
    unfolding u_def by simp
  have "stripEdgeHyphens u = rev (dropWhile (\<lambda>d. d = CHR ''-'') (rev u))"
    unfolding stripEdgeHyphens_def front ..
  also have "\<dots> = u" unfolding rear by simp
  finally show ?thesis unfolding su .
qed


lemma sanitizeSlug_pipeline:
  "sanitizeSlug x final =
     (if x = [] then [] else if final then stripEdgeHyphens (slugPipeline x) else slugPipeline x)"
  by (simp add: sanitizeSlug_def slugPipeline_def Let_def)

lemma slugClean_pipeline: "slugClean (slugPipeline x)"
proof -
  have "(isWordChar c \<or> c = CHR ''-'') \<and> toLowerChar c = c" if c: "c \<in> set (slugPipeline x)" for c
  proof -
    from c have c1: "c \<in> set (removeNonWord (replaceSpaceRuns (trim (toLowerCase x))))"
      unfolding slugPipeline_def using set_collapseHyphens by blast
    then have w: "isWordChar c \<or> c = CHR ''-''"
      by (auto simp: removeNonWord_def)
    from c1 have "c \<in> set (replaceSpaceRuns (trim (toLowerCase x)))"
      by (simp add: removeNonWord_def)
    then have "c = CHR ''-'' \<or> c \<in> set (trim (toLowerCase x))"
      using set_replaceSpaceRuns by blast
    then have "c = CHR ''-'' \<or> c \<in> set (toLowerCase x)"
      using set_trim by blast
    then have "toLowerChar c = c"
      by (auto simp: toLowerCase_def toLowerChar_hyphen toLowerChar_idem)
    with w show ?thesis by simp
  qed
  then have "list_all (\<lambda>c. (isWordChar c \<or> c = CHR ''-'') \<and> toLowerChar c = c) (slugPipeline x)"
    by (simp add: list_all_iff)
  moreover have "noDoubleHyphen (slugPipeline x)"
    unfolding slugPipeline_def by (rule noDoubleHyphen_collapseHyphens)
  ultimately show ?thesis by (simp add: slugClean_def)
qed

lemma slugClean_stripEdgeHyphens: "slugClean s \<Longrightarrow> slugClean (stripEdgeHyphens s)"
  using set_stripEdgeHyphens [of s]
  by (auto simp: slugClean_def list_all_iff noDoubleHyphen_stripEdgeHyphens)

lemma slugPipeline_id: "slugClean s \<Longrightarrow> slugPipeline s = s"
proof -
  assume cl: "slugClean s"
  have lower: "toLowerCase s = s"
    using cl by (auto simp: slugClean_def list_all_iff toLowerCase_def intro: map_idI)
  have nospace: "list_all (\<lambda>c. \<not> isSpace c) s"
    unfolding list_all_iff
  proof
    fix c assume "c \<in> set s"
    with cl have "isWordChar c \<or> c = CHR ''-''"
      by (simp add: slugClean_def list_all_iff)
    then show "\<not> isSpace c" by (rule word_or_hyphen_not_space)
  qed
  have word: "removeNonWord s = s"
    using cl by (auto simp: slugClean_def list_all_iff removeNonWord_def filter_id_conv)
  have nodouble: "noDoubleHyphen s"
    using cl by (simp add: slugClean_def)
  show "slugPipeline s = s"
    unfolding slugPipeline_def lower
    by (simp add: trim_id [OF nospace] replaceSpaceRuns_id [OF nospace] word
        collapseHyphens_id [OF nodouble])
qed

text \<open>
  C8. For every input string and either value of the finalization flag, sanitizing a
  sanitized slug again with the same flag gives the same string.
\<close>

theorem sanitizeSlug_idempotent:
  "sanitizeSlug (sanitizeSlug x final) final = sanitizeSlug x final"
proof (cases "x = []")
  case True
  then show ?thesis by (simp add: sanitizeSlug_pipeline)
next
  case False
  show ?thesis
  proof (cases final)
    case True
    define y where "y = stripEdgeHyphens (slugPipeline x)"
    have y: "sanitizeSlug x final = y"
      using \<open>x \<noteq> []\<close> True by (simp add: sanitizeSlug_pipeline y_def)
    have "slugClean y"
      unfolding y_def by (rule slugClean_stripEdgeHyphens) (rule slugClean_pipeline)
    then have "slugPipeline y = y" by (rule slugPipeline_id)
    moreover have "stripEdgeHyphens y = y"
      unfolding y_def by (rule stripEdgeHyphens_idem)
    ultimately have "sanitizeSlug y final = y"
      using True by (simp add: sanitizeSlug_pipeline)
    then show ?thesis unfolding y .
  next
    case notfinal: False
    define y where "y = slugPipeline x"
    have y: "sanitizeSlug x final = y"
      using \<open>x \<noteq> []\<close> notfinal by (simp add: sanitizeSlug_pipeline y_def)
    have "slugClean y"
      unfolding y_def by (rule slugClean_pipeline)
    then have "slugPipeline y = y" by (rule slugPipeline_id)
    then have "sanitizeSlug y final = y"
      using notfinal by (simp add: sanitizeSlug_pipeline)
    then show ?thesis unfolding y .
  qed
qed


text \<open>Scenario D of the specification, with and without finalization.\<close>

lemma sanitizeSlug_scenario_D:
  "sanitizeSlug ''  My First Post!! '' True = ''my-first-post''
   \<and> sanitizeSlug ''  My First Post!! '' False = ''my-first-post''
   \<and> sanitizeSlug ''--A  - -b_c!-'' False = ''-a-b_c-''
   \<and> sanitizeSlug ''--A  - -b_c!-'' True = ''a-b_c''"
  by code_simp

section \<open>The projection orders by date\<close>

lemma set_insertSorted: "set (insertSorted cmp x xs) = insert x (set xs)"
  by (induction xs) auto

lemma mset_insertSorted: "mset (insertSorted cmp x xs) = add_mset x (mset xs)"
  by (induction xs) auto

lemma mset_jsSort: "mset (jsSort cmp xs) = mset xs"
  by (induction xs) (simp_all add: jsSort_def mset_insertSorted)

lemma sorted_wrt_insertSorted:
  assumes tr: "\<And>a b c. cmp a b \<le> 0 \<Longrightarrow> cmp b c \<le> 0 \<Longrightarrow> cmp a c \<le> 0"
    and tot: "\<And>a b. \<not> cmp a b \<le> 0 \<Longrightarrow> cmp b a \<le> 0"
    and srt: "sorted_wrt (\<lambda>a b. cmp a b \<le> 0) xs"
  shows "sorted_wrt (\<lambda>a b. cmp a b \<le> 0) (insertSorted cmp x xs)"
  using srt
proof (induction xs)
  case Nil
  show ?case by simp
next
  case (Cons y ys)
  show ?case
  proof (cases "cmp x y \<le> 0")
    case True
    have "cmp x z \<le> 0" if "z \<in> set ys" for z
    proof -
      from Cons.prems that have "cmp y z \<le> 0" by simp
      with True show ?thesis by (rule tr)
    qed
    with True Cons.prems show ?thesis by simp
  next
    case False
    then have yx: "cmp y x \<le> 0" by (rule tot)
    from Cons.prems have "sorted_wrt (\<lambda>a b. cmp a b \<le> 0) ys" by simp
    then have "sorted_wrt (\<lambda>a b. cmp a b \<le> 0) (insertSorted cmp x ys)" by (rule Cons.IH)
    moreover have "cmp y z \<le> 0" if "z \<in> set (insertSorted cmp x ys)" for z
      using that yx Cons.prems by (auto simp: set_insertSorted)
    ultimately show ?thesis using False by simp
  qed
qed

lemma sorted_wrt_jsSort:
  assumes tr: "\<And>a b c. cmp a b \<le> 0 \<Longrightarrow> cmp b c \<le> 0 \<Longrightarrow> cmp a c \<le> 0"
    and tot: "\<And>a b. \<not> cmp a b \<le> 0 \<Longrightarrow> cmp b a \<le> 0"
  shows "sorted_wrt (\<lambda>a b. cmp a b \<le> 0) (jsSort cmp xs)"
proof (induction xs)
  case Nil
  show ?case by (simp add: jsSort_def)
next
  case (Cons x xs)
  have "jsSort cmp (x # xs) = insertSorted cmp x (jsSort cmp xs)"
    by (simp add: jsSort_def)
  with sorted_wrt_insertSorted [of cmp "jsSort cmp xs" x, OF tr tot Cons.IH]
  show ?case by simp
qed

lemma sortCompareFn_le0_iff:
  "sortCompareFn newDate order a b \<le> 0
     \<longleftrightarrow> timeOrdered order (publishedDate newDate a) (publishedDate newDate b)"
  by (auto simp: sortCompareFn_def timeOrdered_def isValid_def Let_def compareAsc_def
      compareDesc_def split: option.splits)

lemma timeOrdered_trans:
  "timeOrdered order d e \<Longrightarrow> timeOrdered order e f \<Longrightarrow> timeOrdered order d f"
  by (auto simp: timeOrdered_def split: option.splits if_splits)

lemma timeOrdered_total: "\<not> timeOrdered order d e \<Longrightarrow> timeOrdered order e d"
  by (auto simp: timeOrdered_def split: option.splits if_splits)

lemma projection_sorted:
  "sorted_wrt (\<lambda>a b. timeOrdered order (publishedDate newDate a) (publishedDate newDate b))
     (getFilteredAndSortedPosts newDate posts searchText categoryName order)"
proof -
  have "sorted_wrt (\<lambda>a b. sortCompareFn newDate order a b \<le> 0)
      (jsSort (sortCompareFn newDate order) (filteredPosts posts searchText categoryName))"
    by (rule sorted_wrt_jsSort)
      (auto simp: sortCompareFn_le0_iff intro: timeOrdered_trans timeOrdered_total)
  then show ?thesis
    by (simp add: getFilteredAndSortedPosts_def sortCompareFn_le0_iff)
qed

lemma publishedDate_invalid_iff:
  "\<not> isValid (publishedDate newDate p)
     \<longleftrightarrow> (\<exists>v text. val p = Some v \<and> publishedAt v = Some text \<and> text \<noteq> [] \<and> newDate text = None)"
  by (auto simp: publishedDate_def isValid_def split: option.splits)

lemma publishedDate_missing:
  "val p = None \<or> (\<exists>v. val p = Some v \<and> (publishedAt v = None \<or> publishedAt v = Some []))
     \<Longrightarrow> publishedDate newDate p = Some 0"
  by (auto simp: publishedDate_def)

text \<open>
  C1 (as amended). For every input, search term, category filter and sort order, with
  \<open>out\<close> the result of the projection: (1) \<open>out\<close> is a rearrangement of the filtered
  input; (2) a record whose date is invalid is followed only by records whose date is
  invalid, and the date of a record is invalid exactly when its \<open>publishedAt\<close> is a
  non-empty text that does not parse; (3) two records with valid dates stand in
  ascending order of time under \<open>oldest\<close> and in descending order under any other sort
  order; (4) a record without \<open>publishedAt\<close> (or with an empty one) has the valid date of
  time 0; (5) in Scenario B the order under \<open>newest\<close> is June, January, undated.
\<close>

theorem projection_date_order:
  assumes out: "out = getFilteredAndSortedPosts newDate posts searchText categoryName order"
  shows "mset out = mset (filteredPosts posts searchText categoryName)
   \<and> (\<forall>i j. i < j \<and> j < length out \<and> \<not> isValid (publishedDate newDate (out ! i))
         \<longrightarrow> \<not> isValid (publishedDate newDate (out ! j)))
   \<and> (\<forall>p. \<not> isValid (publishedDate newDate p)
         \<longleftrightarrow> (\<exists>v text. val p = Some v \<and> publishedAt v = Some text \<and> text \<noteq> []
               \<and> newDate text = None))
   \<and> (\<forall>i j t u. i < j \<and> j < length out \<and> publishedDate newDate (out ! i) = Some t
           \<and> publishedDate newDate (out ! j) = Some u
         \<longrightarrow> (if order = ''oldest'' then t \<le> u else u \<le> t))
   \<and> (\<forall>p. val p = None \<or> (\<exists>v. val p = Some v \<and> (publishedAt v = None \<or> publishedAt v = Some []))
         \<longrightarrow> publishedDate newDate p = Some 0)
   \<and> getFilteredAndSortedPosts scenarioDate [recJan, recJun, recUndated] [] [] ''newest''
       = [recJun, recJan, recUndated]"
proof -
  have ordered: "timeOrdered order (publishedDate newDate (out ! i)) (publishedDate newDate (out ! j))"
    if "i < j" "j < length out" for i j
    using that projection_sorted [of order newDate posts searchText categoryName]
    unfolding out by (simp add: sorted_wrt_iff_nth_less)
  have perm: "mset out = mset (filteredPosts posts searchText categoryName)"
    unfolding out by (simp add: getFilteredAndSortedPosts_def mset_jsSort)
  have invalid_last: "\<not> isValid (publishedDate newDate (out ! j))"
    if "i < j \<and> j < length out \<and> \<not> isValid (publishedDate newDate (out ! i))" for i j
    using ordered [of i j] that
    by (auto simp: timeOrdered_def isValid_def split: option.splits)
  have by_time: "if order = ''oldest'' then t \<le> u else u \<le> t"
    if "i < j \<and> j < length out \<and> publishedDate newDate (out ! i) = Some t
        \<and> publishedDate newDate (out ! j) = Some u" for i j t u
    using ordered [of i j] that
    by (auto simp: timeOrdered_def split: if_splits)
  have scenario: "getFilteredAndSortedPosts scenarioDate [recJan, recJun, recUndated] [] [] ''newest''
       = [recJun, recJan, recUndated]"
    by code_simp
  show ?thesis
    using perm invalid_last by_time scenario publishedDate_invalid_iff [of newDate]
      publishedDate_missing [of _ newDate]
    by blast
qed

theorem projection_date_order_witness:
  "[recUndated, recJan, recJun, recGarbled]
     = getFilteredAndSortedPosts scenarioDate [recGarbled, recJun, recUndated, recJan] [] [] ''oldest''
   \<and> \<not> isValid (publishedDate scenarioDate recGarbled)
   \<and> publishedDate scenarioDate recUndated = Some 0
   \<and> publishedDate scenarioDate recJan = Some 1704067200000
   \<and> [recJun, recJan, recUndated, recGarbled]
     = getFilteredAndSortedPosts scenarioDate [recGarbled, recJun, recUndated, recJan] [] [] ''newest''"
proof -
  have o: "[recUndated, recJan, recJun, recGarbled]
     = getFilteredAndSortedPosts scenarioDate [recGarbled, recJun, recUndated, recJan] [] [] ''oldest''"
    by code_simp
  have n: "[recJun, recJan, recUndated, recGarbled]
     = getFilteredAndSortedPosts scenarioDate [recGarbled, recJun, recUndated, recJan] [] [] ''newest''"
    by code_simp
  have g: "\<not> isValid (publishedDate scenarioDate recGarbled)"
    by code_simp
  have j: "publishedDate scenarioDate recJan = Some 1704067200000"
    by code_simp
  have m: "val recUndated = None
      \<or> (\<exists>v. val recUndated = Some v \<and> (publishedAt v = None \<or> publishedAt v = Some []))"
    by (simp add: recUndated_def plainValue_def)
  have "publishedDate scenarioDate recUndated = Some 0"
    using projection_date_order [OF o] m by blast
  with o n g j show ?thesis by simp
qed

text \<open>
  Under \<open>oldest\<close> the record without \<open>publishedAt\<close> is placed before the two dated
  records, not after them.
\<close>

theorem undated_first_when_oldest:
  "getFilteredAndSortedPosts scenarioDate [recJan, recJun, recUndated] [] [] ''oldest''
     = [recUndated, recJan, recJun]
   \<and> val recUndated = Some plainValue \<and> publishedAt plainValue = None
   \<and> publishedDate scenarioDate recJan = Some 1704067200000
   \<and> publishedDate scenarioDate recJun = Some 1717200000000"
  by code_simp

section \<open>When a walk stops, fails, or meets an empty page\<close>

declare fetchLoop.simps [simp del]

lemma fetchLoop_fail:
  assumes "fetchRecords (pagesFetched w + 1) (currentCursor w) = Inl message"
  shows "fetchLoop fetchRecords sanitize maxPages w =
     (Some message, w\<lparr>pagesFetched := pagesFetched w + 1,
                       served := served w @ [(currentCursor w, Inl message)]\<rparr>)"
  using assms by (subst fetchLoop.simps) (simp add: Let_def)

lemma fetchLoop_stop:
  assumes "fetchRecords (pagesFetched w + 1) (currentCursor w) = Inr (batchRecords, nextCursor)"
    and "\<not> truthy nextCursor \<or> maxPages \<le> pagesFetched w + 1"
  shows "fetchLoop fetchRecords sanitize maxPages w =
     (None, afterPage sanitize w batchRecords nextCursor)"
  using assms by (subst fetchLoop.simps) (auto simp: Let_def afterPage_def)

lemma fetchLoop_continue:
  assumes "fetchRecords (pagesFetched w + 1) (currentCursor w) = Inr (batchRecords, nextCursor)"
    and "truthy nextCursor" and "pagesFetched w + 1 < maxPages"
  shows "fetchLoop fetchRecords sanitize maxPages w =
     fetchLoop fetchRecords sanitize maxPages (afterPage sanitize w batchRecords nextCursor)"
  using assms by (subst fetchLoop.simps) (auto simp: Let_def afterPage_def)

lemma afterPage_simps:
  "pagesFetched (afterPage sanitize w batchRecords nextCursor) = pagesFetched w + 1"
  "currentCursor (afterPage sanitize w batchRecords nextCursor) = nextCursor"
  "served (afterPage sanitize w batchRecords nextCursor)
     = served w @ [(currentCursor w, Inr (batchRecords, nextCursor))]"
  "allRecords (afterPage sanitize w batchRecords nextCursor) = allRecords w @ batchRecords"
  by (simp_all add: afterPage_def Let_def)

lemma fetchLoop_served:
  "\<exists>more. served (snd (fetchLoop fetchRecords sanitize maxPages w))
     = served w @ (currentCursor w, fetchRecords (pagesFetched w + 1) (currentCursor w)) # more"
proof (induction "nat (maxPages - pagesFetched w)" arbitrary: w rule: less_induct)
  case less
  show ?case
  proof (cases "fetchRecords (pagesFetched w + 1) (currentCursor w)")
    case (Inl message)
    then show ?thesis by (simp add: fetchLoop_fail)
  next
    case (Inr page)
    obtain batchRecords nextCursor where page: "page = (batchRecords, nextCursor)"
      by (cases page)
    note out = Inr [unfolded page]
    show ?thesis
    proof (cases "truthy nextCursor \<and> pagesFetched w + 1 < maxPages")
      case True
      let ?w' = "afterPage sanitize w batchRecords nextCursor"
      have "nat (maxPages - pagesFetched ?w') < nat (maxPages - pagesFetched w)"
        using True by (simp add: afterPage_simps)
      from less [OF this] obtain more where
        "served (snd (fetchLoop fetchRecords sanitize maxPages ?w'))
           = served ?w' @ (currentCursor ?w', fetchRecords (pagesFetched ?w' + 1) (currentCursor ?w')) # more"
        by blast
      moreover have "fetchLoop fetchRecords sanitize maxPages w
          = fetchLoop fetchRecords sanitize maxPages ?w'"
        using out True by (intro fetchLoop_continue) simp_all
      ultimately show ?thesis
        using out by (simp add: afterPage_simps)
    next
      case False
      then have "\<not> truthy nextCursor \<or> maxPages \<le> pagesFetched w + 1" by auto
      with out have "fetchLoop fetchRecords sanitize maxPages w
          = (None, afterPage sanitize w batchRecords nextCursor)"
        by (intro fetchLoop_stop) simp_all
      then show ?thesis
        using out by (simp add: afterPage_simps)
    qed
  qed
qed


lemma fetchLoop_budget:
  "length (served (snd (fetchLoop fetchRecords sanitize maxPages w)))
     \<le> length (served w) + max 1 (nat (maxPages - pagesFetched w))"
proof (induction "nat (maxPages - pagesFetched w)" arbitrary: w rule: less_induct)
  case less
  show ?case
  proof (cases "fetchRecords (pagesFetched w + 1) (currentCursor w)")
    case (Inl message)
    then show ?thesis by (simp add: fetchLoop_fail)
  next
    case (Inr page)
    obtain batchRecords nextCursor where page: "page = (batchRecords, nextCursor)"
      by (cases page)
    note out = Inr [unfolded page]
    show ?thesis
    proof (cases "truthy nextCursor \<and> pagesFetched w + 1 < maxPages")
      case True
      let ?w' = "afterPage sanitize w batchRecords nextCursor"
      have smaller: "nat (maxPages - pagesFetched ?w') < nat (maxPages - pagesFetched w)"
        using True by (simp add: afterPage_simps)
      have "length (served (snd (fetchLoop fetchRecords sanitize maxPages ?w')))
          \<le> length (served ?w') + max 1 (nat (maxPages - pagesFetched ?w'))"
        using less [OF smaller] .
      moreover have "fetchLoop fetchRecords sanitize maxPages w
          = fetchLoop fetchRecords sanitize maxPages ?w'"
        using out True by (intro fetchLoop_continue) simp_all
      moreover have "Suc (max 1 (nat (maxPages - (pagesFetched w + 1))))
          \<le> max 1 (nat (maxPages - pagesFetched w))"
        using True by arith
      ultimately show ?thesis
        by (simp add: afterPage_simps)
    next
      case False
      then have "\<not> truthy nextCursor \<or> maxPages \<le> pagesFetched w + 1" by auto
      with out have "fetchLoop fetchRecords sanitize maxPages w
          = (None, afterPage sanitize w batchRecords nextCursor)"
        by (intro fetchLoop_stop) simp_all
      then show ?thesis
        by (simp add: afterPage_simps)
    qed
  qed
qed

lemma fetchLoop_outcome:
  assumes "list_all (\<lambda>e. \<not> isl (snd e)) (served w)"
  shows "case fetchLoop fetchRecords sanitize maxPages w of
           (None, w') \<Rightarrow> list_all (\<lambda>e. \<not> isl (snd e)) (served w')
         | (Some message, w') \<Rightarrow>
             (\<exists>pre c. served w' = pre @ [(c, Inl message)] \<and> list_all (\<lambda>e. \<not> isl (snd e)) pre)"
  using assms
proof (induction "nat (maxPages - pagesFetched w)" arbitrary: w rule: less_induct)
  case less
  show ?case
  proof (cases "fetchRecords (pagesFetched w + 1) (currentCursor w)")
    case (Inl message)
    then show ?thesis using less.prems by (simp add: fetchLoop_fail)
  next
    case (Inr page)
    obtain batchRecords nextCursor where page: "page = (batchRecords, nextCursor)"
      by (cases page)
    note out = Inr [unfolded page]
    let ?w' = "afterPage sanitize w batchRecords nextCursor"
    have ok': "list_all (\<lambda>e. \<not> isl (snd e)) (served ?w')"
      using less.prems by (simp add: afterPage_simps)
    show ?thesis
    proof (cases "truthy nextCursor \<and> pagesFetched w + 1 < maxPages")
      case True
      have smaller: "nat (maxPages - pagesFetched ?w') < nat (maxPages - pagesFetched w)"
        using True by (simp add: afterPage_simps)
      have "fetchLoop fetchRecords sanitize maxPages w
          = fetchLoop fetchRecords sanitize maxPages ?w'"
        using out True by (intro fetchLoop_continue) simp_all
      with less.hyps [OF smaller ok'] show ?thesis by simp
    next
      case False
      then have "\<not> truthy nextCursor \<or> maxPages \<le> pagesFetched w + 1" by auto
      with out have "fetchLoop fetchRecords sanitize maxPages w = (None, ?w')"
        by (intro fetchLoop_stop) simp_all
      with ok' show ?thesis by simp
    qed
  qed
qed

lemma no_failure_notin:
  fixes log :: "('c \<times> ('m + 'p)) list"
  assumes "list_all (\<lambda>e. \<not> isl (snd e)) log"
  shows "(c, Inl message) \<notin> set log"
proof
  assume "(c, Inl message) \<in> set log"
  with assms have "\<not> isl (snd (c, Inl message :: 'm + 'p))"
    unfolding list_all_iff by (rule bspec)
  then show False by simp
qed

lemma failure_is_last:
  assumes "log = pre @ [(c, Inl message)]" and "list_all (\<lambda>e. \<not> isl (snd e)) pre"
    and "(c', Inl message') \<in> set log"
  shows "c' = c \<and> message' = message \<and> last log = (c, Inl message)"
proof -
  have "(c', Inl message') \<notin> set pre"
    using assms(2) by (rule no_failure_notin)
  with assms(1,3) show ?thesis by auto
qed


lemma fetchAllRecords_loop_served:
  "\<exists>more. snd (fetchAllRecords_loop (Suc fuel) listRecords pageNo cur acc log)
     = log @ (cur, listRecords pageNo cur) # more"
proof (induction fuel arbitrary: pageNo cur acc log)
  case 0
  show ?case
    by (auto simp: Let_def split: sum.splits option.splits prod.splits)
next
  case (Suc fuel)
  show ?case
  proof (cases "listRecords pageNo cur")
    case (Inl message)
    then show ?thesis by simp
  next
    case (Inr page)
    obtain records nextCur where page: "page = (records, nextCur)" by (cases page)
    show ?thesis
    proof (cases "records \<noteq> None \<and> truthy nextCur")
      case True
      then obtain rs where rs: "records = Some rs" by auto
      from Suc [of "pageNo + 1" nextCur "acc @ rs" "log @ [(cur, listRecords pageNo cur)]"]
      obtain more where "snd (fetchAllRecords_loop (Suc fuel) listRecords (pageNo + 1) nextCur (acc @ rs)
            (log @ [(cur, listRecords pageNo cur)]))
          = (log @ [(cur, listRecords pageNo cur)]) @ (nextCur, listRecords (pageNo + 1) nextCur) # more"
        by blast
      moreover have "fetchAllRecords_loop (Suc (Suc fuel)) listRecords pageNo cur acc log
          = fetchAllRecords_loop (Suc fuel) listRecords (pageNo + 1) nextCur (acc @ rs)
              (log @ [(cur, listRecords pageNo cur)])"
        using Inr page rs True by (simp add: Let_def)
      ultimately show ?thesis by simp
    next
      case False
      then show ?thesis
        using Inr page by (cases records) (auto simp: Let_def)
    qed
  qed
qed

lemma fetchAllRecords_loop_failure:
  assumes "list_all (\<lambda>e. \<not> isl (snd e)) log"
    and "(c, Inl message) \<in> set (snd (fetchAllRecords_loop fuel listRecords pageNo cur acc log))"
  shows "fetchAllRecords_loop fuel listRecords pageNo cur acc log
     = (Some [], snd (fetchAllRecords_loop fuel listRecords pageNo cur acc log))
     \<and> last (snd (fetchAllRecords_loop fuel listRecords pageNo cur acc log)) = (c, Inl message)"
  using assms
proof (induction fuel arbitrary: pageNo cur acc log)
  case 0
  then show ?case by (auto simp: list_all_iff)
next
  case (Suc fuel)
  show ?case
  proof (cases "listRecords pageNo cur")
    case (Inl m)
    then show ?thesis using Suc.prems by (auto simp: list_all_iff)
  next
    case (Inr page)
    obtain records nextCur where page: "page = (records, nextCur)" by (cases page)
    have ok1: "list_all (\<lambda>e. \<not> isl (snd e)) (log @ [(cur, listRecords pageNo cur)])"
      using Suc.prems(1) Inr by simp
    show ?thesis
    proof (cases "records \<noteq> None \<and> truthy nextCur")
      case True
      then obtain rs where rs: "records = Some rs" by auto
      have step: "fetchAllRecords_loop (Suc fuel) listRecords pageNo cur acc log
          = fetchAllRecords_loop fuel listRecords (pageNo + 1) nextCur (acc @ rs)
              (log @ [(cur, listRecords pageNo cur)])"
        using Inr page rs True by (simp add: Let_def)
      from Suc.IH [OF ok1, of "pageNo + 1" nextCur "acc @ rs"] Suc.prems(2)
      show ?thesis unfolding step by simp
    next
      case False
      then have "snd (fetchAllRecords_loop (Suc fuel) listRecords pageNo cur acc log)
          = log @ [(cur, listRecords pageNo cur)]"
        using Inr page by (cases records) (auto simp: Let_def)
      with Suc.prems(2) have "(c, Inl message) \<in> set (log @ [(cur, listRecords pageNo cur)])"
        by simp
      moreover have "(c, Inl message) \<notin> set (log @ [(cur, listRecords pageNo cur)])"
        using ok1 by (rule no_failure_notin)
      ultimately show ?thesis by simp
    qed
  qed
qed

lemma completeFetch_page:
  "allPostsLoaded (completeFetch (Inr (batch, newCursor)) s)
     = (\<not> truthy newCursor \<or> length batch < POSTS_PER_PAGE)"
  "cursor (completeFetch (Inr (batch, newCursor)) s) = newCursor"
  "isLoadingMore (completeFetch (Inr (batch, newCursor)) s) = False"
  "requests (completeFetch (Inr (batch, newCursor)) s) = requests s"
  "fetchedPostsCache (completeFetch (Inr (batch, newCursor)) s)
     = fetchedPostsCache (appendPostsToCache batch s)"
  by (simp_all add: completeFetch_def Let_def appendPostsToCache_def updateUniqueCategories_def)

lemma handleLoadMore_requests:
  "requests (handleLoadMore fetchBlogPostsBatch s)
     = (if allPostsLoaded s \<or> isLoadingMore s then requests s else requests s @ [cursor s])"
  by (auto simp: handleLoadMore_def fetchAndAppendPosts_def beginFetch_def completeFetch_def
      Let_def appendPostsToCache_def updateUniqueCategories_def split: sum.splits prod.splits)

lemma load_more_after_page:
  assumes "\<not> isLoadingMore s" and "fetchBlogPostsBatch POSTS_PER_PAGE c = Inr (batch, newCursor)"
  shows "requests (handleLoadMore nextBatch (fetchAndAppendPosts fetchBlogPostsBatch c s))
     = (if \<not> truthy newCursor \<or> length batch < POSTS_PER_PAGE then requests s @ [c]
        else requests s @ [c, newCursor])"
  using assms
  by (simp add: handleLoadMore_requests fetchAndAppendPosts_def completeFetch_page beginFetch_def)


lemma snd_fetchAllRecordsForUser:
  "snd (fetchAllRecordsForUser fetchRecords sanitize maxPages)
     = snd (fetchLoop fetchRecords sanitize maxPages freshWalk)"
  by (simp add: fetchAllRecordsForUser_def split: prod.splits option.splits)

lemma fetchLoop_next_request:
  assumes out: "fetchRecords (pagesFetched w + 1) (currentCursor w) = Inr (batchRecords, nextCursor)"
    and go: "truthy nextCursor \<and> pagesFetched w + 1 < maxPages"
  shows "\<exists>more. served (snd (fetchLoop fetchRecords sanitize maxPages w))
     = served w @ [(currentCursor w, Inr (batchRecords, nextCursor)),
                   (nextCursor, fetchRecords (pagesFetched w + 2) nextCursor)] @ more"
proof -
  let ?w' = "afterPage sanitize w batchRecords nextCursor"
  have step: "fetchLoop fetchRecords sanitize maxPages w
      = fetchLoop fetchRecords sanitize maxPages ?w'"
    using out go by (intro fetchLoop_continue) simp_all
  obtain more where "served (snd (fetchLoop fetchRecords sanitize maxPages ?w'))
      = served ?w' @ (currentCursor ?w', fetchRecords (pagesFetched ?w' + 1) (currentCursor ?w')) # more"
    using fetchLoop_served [of fetchRecords sanitize maxPages ?w'] by blast
  then have "served (snd (fetchLoop fetchRecords sanitize maxPages w))
     = served w @ [(currentCursor w, Inr (batchRecords, nextCursor)),
                   (nextCursor, fetchRecords (pagesFetched w + 2) nextCursor)] @ more"
    unfolding step by (simp add: afterPage_simps add.assoc)
  then show ?thesis by blast
qed

lemma fetchLoop_last_request:
  assumes out: "fetchRecords (pagesFetched w + 1) (currentCursor w) = Inr (batchRecords, nextCursor)"
    and stop: "\<not> (truthy nextCursor \<and> pagesFetched w + 1 < maxPages)"
  shows "served (snd (fetchLoop fetchRecords sanitize maxPages w))
     = served w @ [(currentCursor w, Inr (batchRecords, nextCursor))]"
proof -
  from stop have "\<not> truthy nextCursor \<or> maxPages \<le> pagesFetched w + 1" by auto
  with out have "fetchLoop fetchRecords sanitize maxPages w
      = (None, afterPage sanitize w batchRecords nextCursor)"
    by (intro fetchLoop_stop) simp_all
  then show ?thesis by (simp add: afterPage_simps)
qed

lemma fetchAllRecords_loop_next_request:
  assumes out: "listRecords pageNo cur = Inr (Some records, nextCur)" and go: "truthy nextCur"
  shows "\<exists>more. snd (fetchAllRecords_loop (Suc (Suc fuel)) listRecords pageNo cur acc log)
     = log @ [(cur, Inr (Some records, nextCur)), (nextCur, listRecords (pageNo + 1) nextCur)] @ more"
proof -
  have step: "fetchAllRecords_loop (Suc (Suc fuel)) listRecords pageNo cur acc log
      = fetchAllRecords_loop (Suc fuel) listRecords (pageNo + 1) nextCur (acc @ records)
          (log @ [(cur, Inr (Some records, nextCur))])"
    using out go by (simp add: Let_def)
  obtain more where "snd (fetchAllRecords_loop (Suc fuel) listRecords (pageNo + 1) nextCur
        (acc @ records) (log @ [(cur, Inr (Some records, nextCur))]))
      = (log @ [(cur, Inr (Some records, nextCur))]) @ (nextCur, listRecords (pageNo + 1) nextCur) # more"
    using fetchAllRecords_loop_served by blast
  then show ?thesis unfolding step by simp
qed

text \<open>
  C2 (as amended). After a page that arrived with records \<open>batchRecords\<close> and cursor
  \<open>nextCursor\<close>, whatever the number of records: (1) \<open>fetchAllRecordsForUser\<close> requests
  the next page, with that cursor, when the cursor is present and fewer than \<open>maxPages\<close>
  pages have been fetched, and makes no further request otherwise; the whole walk makes
  at most \<open>max 1 maxPages\<close> requests; (2) \<open>fetchAllRecords\<close> requests the next page when the
  cursor is present and returns otherwise; it has no page budget; (3) only the load-more
  path has the short-page rule: after \<open>fetchAndAppendPosts\<close> received a page, the next
  \<open>handleLoadMore\<close> makes a request, with the new cursor, exactly when that cursor is
  present and the page held at least \<open>POSTS_PER_PAGE\<close> records.
\<close>

theorem fetch_walk_stop_rule:
  "(fetchRecords (pagesFetched w + 1) (currentCursor w) = Inr (batchRecords, nextCursor) \<longrightarrow>
      (if truthy nextCursor \<and> pagesFetched w + 1 < maxPages
       then \<exists>more. served (snd (fetchLoop fetchRecords sanitize maxPages w))
              = served w @ [(currentCursor w, Inr (batchRecords, nextCursor)),
                            (nextCursor, fetchRecords (pagesFetched w + 2) nextCursor)] @ more
       else served (snd (fetchLoop fetchRecords sanitize maxPages w))
              = served w @ [(currentCursor w, Inr (batchRecords, nextCursor))]))
   \<and> length (served (snd (fetchAllRecordsForUser fetchRecords sanitize maxPages)))
       \<le> max 1 (nat maxPages)
   \<and> (listRecords pageNo cur = Inr (Some records, nextCur) \<longrightarrow>
      (if truthy nextCur
       then \<exists>more. snd (fetchAllRecords_loop (Suc (Suc fuel)) listRecords pageNo cur acc log)
              = log @ [(cur, Inr (Some records, nextCur)),
                       (nextCur, listRecords (pageNo + 1) nextCur)] @ more
       else fetchAllRecords_loop (Suc fuel) listRecords pageNo cur acc log
              = (Some (acc @ records), log @ [(cur, Inr (Some records, nextCur))])))
   \<and> (\<not> isLoadingMore s \<and> fetchBlogPostsBatch POSTS_PER_PAGE c = Inr (batch, newCursor) \<longrightarrow>
       requests (handleLoadMore nextBatch (fetchAndAppendPosts fetchBlogPostsBatch c s))
         = (if \<not> truthy newCursor \<or> length batch < POSTS_PER_PAGE then requests s @ [c]
            else requests s @ [c, newCursor]))"
proof (intro conjI impI)
  assume out: "fetchRecords (pagesFetched w + 1) (currentCursor w) = Inr (batchRecords, nextCursor)"
  show "if truthy nextCursor \<and> pagesFetched w + 1 < maxPages
       then \<exists>more. served (snd (fetchLoop fetchRecords sanitize maxPages w))
              = served w @ [(currentCursor w, Inr (batchRecords, nextCursor)),
                            (nextCursor, fetchRecords (pagesFetched w + 2) nextCursor)] @ more
       else served (snd (fetchLoop fetchRecords sanitize maxPages w))
              = served w @ [(currentCursor w, Inr (batchRecords, nextCursor))]"
    using fetchLoop_next_request [where fetchRecords = fetchRecords and w = w, OF out]
      fetchLoop_last_request [where fetchRecords = fetchRecords and w = w, OF out]
    by (cases "truthy nextCursor \<and> pagesFetched w + 1 < maxPages") simp_all
next
  show "length (served (snd (fetchAllRecordsForUser fetchRecords sanitize maxPages)))
       \<le> max 1 (nat maxPages)"
    using fetchLoop_budget [of fetchRecords sanitize maxPages freshWalk]
    by (simp add: snd_fetchAllRecordsForUser freshWalk_def)
next
  assume out: "listRecords pageNo cur = Inr (Some records, nextCur)"
  show "if truthy nextCur
       then \<exists>more. snd (fetchAllRecords_loop (Suc (Suc fuel)) listRecords pageNo cur acc log)
              = log @ [(cur, Inr (Some records, nextCur)),
                       (nextCur, listRecords (pageNo + 1) nextCur)] @ more
       else fetchAllRecords_loop (Suc fuel) listRecords pageNo cur acc log
              = (Some (acc @ records), log @ [(cur, Inr (Some records, nextCur))])"
  proof (cases "truthy nextCur")
    case True
    with fetchAllRecords_loop_next_request
      [where listRecords = listRecords and pageNo = pageNo and cur = cur, OF out True]
    show ?thesis by simp
  next
    case False
    with out show ?thesis by (simp add: Let_def)
  qed
next
  assume "\<not> isLoadingMore s \<and> fetchBlogPostsBatch POSTS_PER_PAGE c = Inr (batch, newCursor)"
  then show "requests (handleLoadMore nextBatch (fetchAndAppendPosts fetchBlogPostsBatch c s))
         = (if \<not> truthy newCursor \<or> length batch < POSTS_PER_PAGE then requests s @ [c]
            else requests s @ [c, newCursor])"
    using load_more_after_page [of s fetchBlogPostsBatch c batch newCursor nextBatch] by simp
qed


theorem fetch_walk_stop_rule_witness:
  "emptyPageStore (pagesFetched freshWalk + 1) (currentCursor freshWalk) = Inr ([recA], Some ''c1'')
   \<and> truthy (Some ''c1'') \<and> pagesFetched freshWalk + 1 < 30
   \<and> (\<exists>more. served (snd (fetchLoop emptyPageStore id 30 freshWalk))
         = [(None, Inr ([recA], Some ''c1'')), (Some ''c1'', Inr ([], Some ''c2''))] @ more)
   \<and> served (snd (fetchLoop emptyPageStore id 1 freshWalk)) = [(None, Inr ([recA], Some ''c1''))]
   \<and> \<not> isLoadingMore initialState
   \<and> requests (handleLoadMore (\<lambda>limit c. Inl ''offline'')
        (fetchAndAppendPosts (\<lambda>limit c. Inr ([recA], Some ''c1'')) None initialState)) = [None]"
proof -
  have out: "emptyPageStore (pagesFetched freshWalk + 1) (currentCursor freshWalk)
      = Inr ([recA], Some ''c1'')"
    by (simp add: emptyPageStore_def freshWalk_def)
  have go: "truthy (Some ''c1'') \<and> pagesFetched freshWalk + 1 < 30"
    by (simp add: truthy_def freshWalk_def)
  have stop: "\<not> (truthy (Some ''c1'') \<and> pagesFetched freshWalk + 1 < 1)"
    by (simp add: freshWalk_def)
  have idle: "\<not> isLoadingMore initialState"
    by (simp add: initialState_def)
  have page: "(\<lambda>limit c. Inr ([recA], Some ''c1'')) POSTS_PER_PAGE None
      = (Inr ([recA], Some ''c1'') :: batchResponse)"
    by simp
  have short: "\<not> truthy (Some ''c1'') \<or> length [recA] < POSTS_PER_PAGE"
    by (simp add: POSTS_PER_PAGE_def)
  have second: "emptyPageStore (pagesFetched freshWalk + 2) (Some ''c1'') = Inr ([], Some ''c2'')"
    by (simp add: emptyPageStore_def freshWalk_def)
  have a: "\<exists>more. served (snd (fetchLoop emptyPageStore id 30 freshWalk))
         = [(None, Inr ([recA], Some ''c1'')), (Some ''c1'', Inr ([], Some ''c2''))] @ more"
    using fetch_walk_stop_rule [where fetchRecords = emptyPageStore and w = freshWalk
        and batchRecords = "[recA]" and nextCursor = "Some ''c1''" and maxPages = 30
        and sanitize = id] out go second
    by (simp add: freshWalk_def)
  have b: "served (snd (fetchLoop emptyPageStore id 1 freshWalk)) = [(None, Inr ([recA], Some ''c1''))]"
    using fetch_walk_stop_rule [where fetchRecords = emptyPageStore and w = freshWalk
        and batchRecords = "[recA]" and nextCursor = "Some ''c1''" and maxPages = 1
        and sanitize = id] out stop
    by (simp add: freshWalk_def)
  have c: "requests (handleLoadMore (\<lambda>limit c. Inl ''offline'')
        (fetchAndAppendPosts (\<lambda>limit c. Inr ([recA], Some ''c1'')) None initialState)) = [None]"
    using fetch_walk_stop_rule [where s = initialState
        and fetchBlogPostsBatch = "\<lambda>limit c. Inr ([recA], Some ''c1'')" and c = None
        and batch = "[recA]" and newCursor = "Some ''c1''"
        and nextBatch = "\<lambda>limit c. Inl ''offline''"] idle page short
    by (simp add: initialState_def)
  from out go a b idle c show ?thesis by blast
qed

text \<open>
  A first page of one record (fewer than the 100 requested) with a cursor does not end
  the walk of \<open>fetchAllRecordsForUser\<close>: the second page is requested with that cursor and
  its record is returned too.
\<close>

theorem short_page_does_not_stop:
  "shortPageStore 1 None = Inr ([recA], Some ''c1'')
   \<and> length [recA] < MAX_LIST_LIMIT
   \<and> map fst (served (snd (fetchAllRecordsForUser shortPageStore id 30))) = [None, Some ''c1'']
   \<and> fst (fetchAllRecordsForUser shortPageStore id 30) = Inr [recA, recB]"
  by code_simp

text \<open>
  C4 (as amended). When a page request of a walk fails, the walk ends with that request
  and returns none of the records it had fetched: \<open>fetchAllRecordsForUser\<close> returns the
  empty array when the message of the error contains "Could not list records" or
  "Status 400", and throws the error again otherwise; \<open>fetchAllRecords\<close> returns the
  empty array.
\<close>

theorem fetch_failure_handling:
  "((c, Inl message) \<in> set (served (snd (fetchAllRecordsForUser fetchRecords sanitize maxPages))) \<longrightarrow>
      last (served (snd (fetchAllRecordsForUser fetchRecords sanitize maxPages))) = (c, Inl message)
      \<and> fst (fetchAllRecordsForUser fetchRecords sanitize maxPages)
          = (if includesStr message ''Could not list records'' \<or> includesStr message ''Status 400''
             then Inr [] else Inl message))
   \<and> ((c', Inl message') \<in> set (snd (fetchAllRecords fuel listRecords)) \<longrightarrow>
      last (snd (fetchAllRecords fuel listRecords)) = (c', Inl message')
      \<and> fst (fetchAllRecords fuel listRecords) = Some [])"
proof (intro conjI impI)
  assume failed: "(c, Inl message) \<in> set (served (snd (fetchAllRecordsForUser fetchRecords sanitize maxPages)))"
  obtain thrown w' where loop: "fetchLoop fetchRecords sanitize maxPages freshWalk = (thrown, w')"
    by (cases "fetchLoop fetchRecords sanitize maxPages freshWalk")
  have log: "served (snd (fetchAllRecordsForUser fetchRecords sanitize maxPages)) = served w'"
    by (simp add: snd_fetchAllRecordsForUser loop)
  have shape: "case (thrown, w') of
           (None, w') \<Rightarrow> list_all (\<lambda>e. \<not> isl (snd e)) (served w')
         | (Some message, w') \<Rightarrow>
             (\<exists>pre c. served w' = pre @ [(c, Inl message)] \<and> list_all (\<lambda>e. \<not> isl (snd e)) pre)"
    using fetchLoop_outcome [of freshWalk fetchRecords sanitize maxPages]
    unfolding loop by (simp add: freshWalk_def)
  have in_log: "(c, Inl message) \<in> set (served w')"
    using failed unfolding log .
  have "thrown \<noteq> None"
  proof
    assume "thrown = None"
    with shape have "list_all (\<lambda>e. \<not> isl (snd e)) (served w')" by simp
    then have "(c, Inl message) \<notin> set (served w')" by (rule no_failure_notin)
    with in_log show False by simp
  qed
  then obtain m where m: "thrown = Some m" by auto
  with shape obtain pre c0 where pre: "served w' = pre @ [(c0, Inl m)]"
    "list_all (\<lambda>e. \<not> isl (snd e)) pre" by auto
  from failure_is_last [OF pre in_log] have same: "c = c0" "message = m"
    and lst: "last (served w') = (c0, Inl m)" by simp_all
  show "last (served (snd (fetchAllRecordsForUser fetchRecords sanitize maxPages))) = (c, Inl message)"
    unfolding log using lst same by simp
  show "fst (fetchAllRecordsForUser fetchRecords sanitize maxPages)
          = (if includesStr message ''Could not list records'' \<or> includesStr message ''Status 400''
             then Inr [] else Inl message)"
    using m same by (simp add: fetchAllRecordsForUser_def loop)
next
  assume failed: "(c', Inl message') \<in> set (snd (fetchAllRecords fuel listRecords))"
  have "fetchAllRecords_loop fuel listRecords 1 None [] []
     = (Some [], snd (fetchAllRecords_loop fuel listRecords 1 None [] []))
     \<and> last (snd (fetchAllRecords_loop fuel listRecords 1 None [] [])) = (c', Inl message')"
    using failed unfolding fetchAllRecords_def
    by (intro fetchAllRecords_loop_failure) simp_all
  then show "last (snd (fetchAllRecords fuel listRecords)) = (c', Inl message')"
    and "fst (fetchAllRecords fuel listRecords) = Some []"
    unfolding fetchAllRecords_def by (simp, metis fst_conv)
qed


theorem fetch_failure_handling_witness:
  "(Some ''c1'', Inl ''HTTP error! Status: 500 Internal'')
      \<in> set (served (snd (fetchAllRecordsForUser failingStore id 30)))
   \<and> fst (fetchAllRecordsForUser failingStore id 30) = Inl ''HTTP error! Status: 500 Internal''
   \<and> length (served (snd (fetchAllRecordsForUser failingStore id 30))) = 2
   \<and> (Some ''c1'', Inl ''socket hang up'') \<in> set (snd (fetchAllRecords 9 cliFailingStore))
   \<and> fst (fetchAllRecords 9 cliFailingStore) = Some []
   \<and> length (snd (fetchAllRecords 9 cliFailingStore)) = 2"
proof -
  have h1: "(Some ''c1'', Inl ''HTTP error! Status: 500 Internal'')
      \<in> set (served (snd (fetchAllRecordsForUser failingStore id 30)))"
    by code_simp
  have h2: "(Some ''c1'', Inl ''socket hang up'') \<in> set (snd (fetchAllRecords 9 cliFailingStore))"
    by code_simp
  have n1: "\<not> (includesStr ''HTTP error! Status: 500 Internal'' ''Could not list records''
      \<or> includesStr ''HTTP error! Status: 500 Internal'' ''Status 400'')"
    by code_simp
  have l1: "length (served (snd (fetchAllRecordsForUser failingStore id 30))) = 2"
    by code_simp
  have l2: "length (snd (fetchAllRecords 9 cliFailingStore)) = 2"
    by code_simp
  have "fst (fetchAllRecordsForUser failingStore id 30) = Inl ''HTTP error! Status: 500 Internal''"
    using fetch_failure_handling [of "Some ''c1''" "''HTTP error! Status: 500 Internal''"
        failingStore id 30] h1 n1
    by simp
  moreover have "fst (fetchAllRecords 9 cliFailingStore) = Some []"
    using fetch_failure_handling [where c' = "Some ''c1''" and message' = "''socket hang up''"
        and fuel = 9 and listRecords = cliFailingStore] h2
    by simp
  ultimately show ?thesis using h1 h2 l1 l2 by simp
qed

text \<open>
  After a first page with a record, a failed second request makes both walks return the
  empty array, the value they return for a collection without records: no error reaches
  the caller (for \<open>fetchAllRecordsForUser\<close>, when the failure is the one of status 400).
\<close>

theorem failed_walk_returns_empty_array:
  "fst (fetchAllRecords 9 cliFailingStore) = Some []
   \<and> fst (fetchAllRecords 9 (\<lambda>n c. Inr (Some [], None))) = Some []
   \<and> fst (fetchAllRecordsForUser notFoundStore id 30) = Inr []
   \<and> fst (fetchAllRecordsForUser (\<lambda>n c. Inr ([], None)) id 30) = Inr []"
  by code_simp

text \<open>
  C6 (as amended). In \<open>fetchAllRecordsForUser\<close> a page without records but with a cursor
  does not end the walk while the page budget is not used up: nothing is added to the
  records, and the next request is made with that cursor; when the budget is used up
  the walk ends there. In the load-more path a page without records is a short page:
  it marks the cache as fully loaded, even with a cursor, and the next load-more makes no
  request.
\<close>

theorem empty_page_with_cursor:
  "(fetchRecords (pagesFetched w + 1) (currentCursor w) = Inr ([], nextCursor)
      \<and> truthy nextCursor \<and> pagesFetched w + 1 < maxPages \<longrightarrow>
      fetchLoop fetchRecords sanitize maxPages w
        = fetchLoop fetchRecords sanitize maxPages
            (w\<lparr>pagesFetched := pagesFetched w + 1,
               served := served w @ [(currentCursor w, Inr ([], nextCursor))],
               currentCursor := nextCursor\<rparr>)
      \<and> (\<exists>more. served (snd (fetchLoop fetchRecords sanitize maxPages w))
            = served w @ [(currentCursor w, Inr ([], nextCursor)),
                          (nextCursor, fetchRecords (pagesFetched w + 2) nextCursor)] @ more))
   \<and> (fetchRecords (pagesFetched w + 1) (currentCursor w) = Inr ([], nextCursor)
      \<and> maxPages \<le> pagesFetched w + 1 \<longrightarrow>
      served (snd (fetchLoop fetchRecords sanitize maxPages w))
        = served w @ [(currentCursor w, Inr ([], nextCursor))])
   \<and> (\<not> isLoadingMore s \<and> fetchBlogPostsBatch POSTS_PER_PAGE c = Inr ([], newCursor) \<longrightarrow>
      allPostsLoaded (fetchAndAppendPosts fetchBlogPostsBatch c s)
      \<and> cursor (fetchAndAppendPosts fetchBlogPostsBatch c s) = newCursor
      \<and> handleLoadMore nextBatch (fetchAndAppendPosts fetchBlogPostsBatch c s)
          = fetchAndAppendPosts fetchBlogPostsBatch c s)"
proof (intro conjI impI)
  assume h: "fetchRecords (pagesFetched w + 1) (currentCursor w) = Inr ([], nextCursor)
      \<and> truthy nextCursor \<and> pagesFetched w + 1 < maxPages"
  then have out: "fetchRecords (pagesFetched w + 1) (currentCursor w) = Inr ([], nextCursor)"
    and go: "truthy nextCursor \<and> pagesFetched w + 1 < maxPages" by simp_all
  have "fetchLoop fetchRecords sanitize maxPages w
      = fetchLoop fetchRecords sanitize maxPages (afterPage sanitize w [] nextCursor)"
    using out go by (intro fetchLoop_continue) simp_all
  then show "fetchLoop fetchRecords sanitize maxPages w
        = fetchLoop fetchRecords sanitize maxPages
            (w\<lparr>pagesFetched := pagesFetched w + 1,
               served := served w @ [(currentCursor w, Inr ([], nextCursor))],
               currentCursor := nextCursor\<rparr>)"
    by (simp add: afterPage_def)
  show "\<exists>more. served (snd (fetchLoop fetchRecords sanitize maxPages w))
            = served w @ [(currentCursor w, Inr ([], nextCursor)),
                          (nextCursor, fetchRecords (pagesFetched w + 2) nextCursor)] @ more"
    using fetchLoop_next_request [where fetchRecords = fetchRecords and w = w, OF out go] .
next
  assume h: "fetchRecords (pagesFetched w + 1) (currentCursor w) = Inr ([], nextCursor)
      \<and> maxPages \<le> pagesFetched w + 1"
  then have out: "fetchRecords (pagesFetched w + 1) (currentCursor w) = Inr ([], nextCursor)"
    and stop: "\<not> (truthy nextCursor \<and> pagesFetched w + 1 < maxPages)" by simp_all
  show "served (snd (fetchLoop fetchRecords sanitize maxPages w))
        = served w @ [(currentCursor w, Inr ([], nextCursor))]"
    using fetchLoop_last_request [where fetchRecords = fetchRecords and w = w, OF out stop] .
next
  assume h: "\<not> isLoadingMore s \<and> fetchBlogPostsBatch POSTS_PER_PAGE c = Inr ([], newCursor)"
  then have s': "fetchAndAppendPosts fetchBlogPostsBatch c s
      = completeFetch (Inr ([], newCursor)) (beginFetch c s)"
    by (simp add: fetchAndAppendPosts_def)
  show loaded: "allPostsLoaded (fetchAndAppendPosts fetchBlogPostsBatch c s)"
    unfolding s' by (simp add: completeFetch_page POSTS_PER_PAGE_def)
  show "cursor (fetchAndAppendPosts fetchBlogPostsBatch c s) = newCursor"
    unfolding s' by (simp add: completeFetch_page)
  show "handleLoadMore nextBatch (fetchAndAppendPosts fetchBlogPostsBatch c s)
          = fetchAndAppendPosts fetchBlogPostsBatch c s"
    using loaded by (simp add: handleLoadMore_def)
qed

theorem empty_page_with_cursor_witness:
  "emptyPageStore (pagesFetched (afterPage id freshWalk [recA] (Some ''c1'')) + 1)
       (currentCursor (afterPage id freshWalk [recA] (Some ''c1''))) = Inr ([], Some ''c2'')
   \<and> truthy (Some ''c2'')
   \<and> pagesFetched (afterPage id freshWalk [recA] (Some ''c1'')) + 1 < 30
   \<and> (\<exists>more. served (snd (fetchLoop emptyPageStore id 30 (afterPage id freshWalk [recA] (Some ''c1''))))
         = [(None, Inr ([recA], Some ''c1'')), (Some ''c1'', Inr ([], Some ''c2'')),
            (Some ''c2'', Inr ([recB], None))] @ more)
   \<and> fst (fetchAllRecordsForUser emptyPageStore id 30) = Inr [recA, recB]
   \<and> \<not> isLoadingMore initialState
   \<and> allPostsLoaded (fetchAndAppendPosts (\<lambda>limit c. Inr ([], Some ''c1'')) None initialState)"
proof -
  let ?w = "afterPage id freshWalk [recA] (Some ''c1'')"
  have out: "emptyPageStore (pagesFetched ?w + 1) (currentCursor ?w) = Inr ([], Some ''c2'')"
    by (simp add: afterPage_simps emptyPageStore_def freshWalk_def)
  have go: "truthy (Some ''c2'') \<and> pagesFetched ?w + 1 < 30"
    by (simp add: afterPage_simps truthy_def freshWalk_def)
  have third: "emptyPageStore (pagesFetched ?w + 2) (Some ''c2'') = Inr ([recB], None)"
    by (simp add: afterPage_simps emptyPageStore_def freshWalk_def)
  have log: "served ?w = [(None, Inr ([recA], Some ''c1''))]"
    by (simp add: afterPage_simps freshWalk_def)
  have cur: "currentCursor ?w = Some ''c1''"
    by (simp add: afterPage_simps)
  have "\<exists>more. served (snd (fetchLoop emptyPageStore id 30 ?w))
         = served ?w @ [(currentCursor ?w, Inr ([], Some ''c2'')),
              (Some ''c2'', emptyPageStore (pagesFetched ?w + 2) (Some ''c2''))] @ more"
    using empty_page_with_cursor [where fetchRecords = emptyPageStore and w = ?w
        and nextCursor = "Some ''c2''" and maxPages = 30 and sanitize = id, THEN conjunct1]
      out go
    by blast
  then have a: "\<exists>more. served (snd (fetchLoop emptyPageStore id 30 ?w))
         = [(None, Inr ([recA], Some ''c1'')), (Some ''c1'', Inr ([], Some ''c2'')),
            (Some ''c2'', Inr ([recB], None))] @ more"
    unfolding third log cur by simp
  have all: "fst (fetchAllRecordsForUser emptyPageStore id 30) = Inr [recA, recB]"
    by code_simp
  have idle: "\<not> isLoadingMore initialState"
    by (simp add: initialState_def)
  have "allPostsLoaded (fetchAndAppendPosts (\<lambda>limit c. Inr ([], Some ''c1'')) None initialState)"
    using empty_page_with_cursor [where s = initialState
        and fetchBlogPostsBatch = "\<lambda>limit c. Inr ([], Some ''c1'')" and c = None
        and newCursor = "Some ''c1''"] idle
    by simp
  with out go a all idle show ?thesis by blast
qed

text \<open>
  In the load-more path the first page comes back without records and with the cursor
  "c1": the cache is marked fully loaded, and the load-more that follows makes no
  request, so the page of cursor "c1" is never asked for.
\<close>

theorem empty_page_ends_load_more:
  "cursor (fetchAndAppendPosts (\<lambda>limit c. Inr ([], Some ''c1'')) None initialState) = Some ''c1''
   \<and> allPostsLoaded (fetchAndAppendPosts (\<lambda>limit c. Inr ([], Some ''c1'')) None initialState)
   \<and> requests (handleLoadMore (\<lambda>limit c. Inr ([recB], None))
        (fetchAndAppendPosts (\<lambda>limit c. Inr ([], Some ''c1'')) None initialState)) = [None]"
  by code_simp

section \<open>The export reads back\<close>

lemma consChar_Some: "consChar c (Some (str, rest)) = Some (c # str, rest)"
  by (simp add: consChar_def)

lemma hexValue_hexDigit: "k < 16 \<Longrightarrow> hexValue (hexDigit k) = Some k"
  by (auto simp: hexValue_def hexDigit_def Let_def)

lemma hexValue_zero: "hexValue (CHR ''0'') = Some 0"
  by (simp add: hexValue_def)

lemma char_of_of_char_nat: "char_of (of_char c :: nat) = c"
  by simp

lemma parseChars_quoteChar:
  "parseChars (quoteChar c @ t) = consChar c (parseChars t)"
proof -
  define n where "n = (of_char c :: nat)"
  have c: "c = char_of n" by (simp add: n_def)
  have n256: "n < 256" by (simp add: n_def)
  consider (dq) "c = dquote" | (bs) "c = bslash"
    | (ctl) "c \<noteq> dquote" "c \<noteq> bslash" "n \<in> {8, 12, 10, 13, 9}"
    | (hex) "c \<noteq> dquote" "c \<noteq> bslash" "n \<notin> {8, 12, 10, 13, 9}" "n < 32"
    | (plain) "c \<noteq> dquote" "c \<noteq> bslash" "32 \<le> n"
    by fastforce
  then show ?thesis
  proof cases
    case dq
    then show ?thesis
      by (simp add: quoteChar_def unescape_def dquote_def bslash_def)
  next
    case bs
    then show ?thesis
      by (simp add: quoteChar_def unescape_def dquote_def bslash_def)
  next
    case ctl
    then show ?thesis
      unfolding c
      by (auto simp: quoteChar_def unescape_def dquote_def bslash_def Let_def n_def [symmetric])
  next
    case hex
    have d16: "n div 16 < 16" "n mod 16 < 16" using hex(4) by simp_all
    have recode: "char_of n = c"
      by (simp add: n_def)
    have q: "quoteChar c = [bslash, CHR ''u'', CHR ''0'', CHR ''0'', hexDigit (n div 16), hexDigit (n mod 16)]"
      using hex by (auto simp: quoteChar_def Let_def n_def [symmetric])
    show ?thesis
      unfolding q
      by (simp add: hexValue_hexDigit [OF d16(1)] hexValue_hexDigit [OF d16(2)] hexValue_zero recode
          bslash_def dquote_def)
  next
    case plain
    then have q: "quoteChar c = [c]"
      by (auto simp: quoteChar_def Let_def n_def [symmetric])
    show ?thesis
      unfolding q using plain by (simp add: n_def)
  qed
qed

lemma parseChars_quoted:
  "parseChars (concat (map quoteChar s) @ dquote # rest) = Some (s, rest)"
proof (induction s)
  case Nil
  show ?case by simp
next
  case (Cons c s)
  have "parseChars (concat (map quoteChar (c # s)) @ dquote # rest)
      = parseChars (quoteChar c @ (concat (map quoteChar s) @ dquote # rest))"
    by simp
  also have "\<dots> = consChar c (parseChars (concat (map quoteChar s) @ dquote # rest))"
    by (rule parseChars_quoteChar)
  also have "\<dots> = Some (c # s, rest)"
    unfolding Cons.IH by (rule consChar_Some)
  finally show ?case .
qed


lemma isDigit_digit: "(k::nat) < 10 \<Longrightarrow> isDigit (char_of (48 + k))"
  by (simp add: isDigit_def Let_def)

lemma digit_value: "(k::nat) < 10 \<Longrightarrow> (of_char (char_of (48 + k) :: char) :: nat) - 48 = k"
  by simp

lemma showNat_digits: "list_all isDigit (showNat n)"
proof (induction n rule: showNat.induct)
  case (1 n)
  show ?case
  proof (cases "n < 10")
    case True
    then show ?thesis by (subst showNat.simps) (simp add: isDigit_digit)
  next
    case False
    with 1 have "list_all isDigit (showNat (n div 10))" by simp
    moreover have "isDigit (char_of (48 + n mod 10))" by (rule isDigit_digit) simp
    ultimately show ?thesis using False by (subst showNat.simps) simp
  qed
qed

lemma showNat_nonempty: "showNat n \<noteq> []"
  by (subst showNat.simps) simp

lemma readNat_snoc: "readNat (ds @ [c]) = 10 * readNat ds + (of_char c - 48)"
  by (simp add: readNat_def)

lemma readNat_showNat: "readNat (showNat n) = n"
proof (induction n rule: showNat.induct)
  case (1 n)
  show ?case
  proof (cases "n < 10")
    case True
    then show ?thesis by (subst showNat.simps) (simp add: readNat_def)
  next
    case False
    with 1 have "readNat (showNat (n div 10)) = n div 10" by simp
    moreover have "(of_char (char_of (48 + n mod 10) :: char) :: nat) - 48 = n mod 10"
      by (rule digit_value) simp
    ultimately have "readNat (showNat (n div 10) @ [char_of (48 + n mod 10)]) = n"
      unfolding readNat_snoc by simp
    then show ?thesis using False by (subst showNat.simps) simp
  qed
qed

lemma takeWhile_digits:
  assumes "list_all isDigit ds" and "okRest rest"
  shows "takeWhile isDigit (ds @ rest) = ds" and "dropWhile isDigit (ds @ rest) = rest"
proof -
  have all: "\<forall>c\<in>set ds. isDigit c" using assms(1) by (simp add: list_all_iff)
  have stop: "takeWhile isDigit rest = []" "dropWhile isDigit rest = rest"
    using assms(2) by (cases rest; simp add: okRest_def)+
  show "takeWhile isDigit (ds @ rest) = ds"
    using all stop by (simp add: takeWhile_append2)
  show "dropWhile isDigit (ds @ rest) = rest"
    using all stop by (simp add: dropWhile_append2)
qed

lemma hd_showNat_digit: "isDigit (hd (showNat n))"
  using showNat_digits [of n] showNat_nonempty [of n]
  by (cases "showNat n") simp_all

lemma minus_not_digit: "\<not> isDigit (CHR ''-'')"
  by (simp add: isDigit_def)

lemma parseNumber_showInt:
  assumes "okRest rest"
  shows "parseNumber (showInt i @ rest) = Some (JNum i, rest)"
proof (cases "i < 0")
  case True
  have tw: "takeWhile isDigit (showNat (nat (- i)) @ rest) = showNat (nat (- i))"
    and dw: "dropWhile isDigit (showNat (nat (- i)) @ rest) = rest"
    using takeWhile_digits [OF showNat_digits assms] by simp_all
  show ?thesis
    using True by (simp add: parseNumber_def showInt_def tw dw showNat_nonempty readNat_showNat)
next
  case False
  obtain c cs where sn: "showNat (nat i) = c # cs"
    using showNat_nonempty [of "nat i"] by (cases "showNat (nat i)") auto
  have "isDigit c" using hd_showNat_digit [of "nat i"] sn by simp
  then have notminus: "c \<noteq> CHR ''-''" using minus_not_digit by auto
  have tw: "takeWhile isDigit ((c # cs) @ rest) = c # cs"
    and dw: "dropWhile isDigit ((c # cs) @ rest) = rest"
    using takeWhile_digits [OF showNat_digits assms, of "nat i"] sn by simp_all
  have "parseNumber ((c # cs) @ rest) = Some (JNum (int (readNat (c # cs))), rest)"
    using notminus tw dw unfolding parseNumber_def by (simp del: takeWhile.simps dropWhile.simps)
  moreover have "readNat (c # cs) = nat i"
    using readNat_showNat [of "nat i"] sn by simp
  ultimately show ?thesis
    using False sn by (simp add: showInt_def)
qed


lemma skipWs_prefix:
  assumes "list_all isWs pre" and "\<not> isWs c"
  shows "skipWs (pre @ c # t) = c # t"
  using assms by (simp add: skipWs_def list_all_iff dropWhile_append2)

lemma skipWs_nonws: "\<not> isWs c \<Longrightarrow> skipWs (c # t) = c # t"
  by (simp add: skipWs_def)

lemma isWs_indent: "list_all isWs (newline # indentBy d)"
  by (simp add: indentBy_def newline_def isWs_def list_all_iff)

lemma digit_not_ws: "isDigit c \<Longrightarrow> \<not> isWs c"
  by (auto simp: isDigit_def isWs_def Let_def)

lemma digit_literals:
  "isDigit c \<Longrightarrow> c \<noteq> CHR ''n'' \<and> c \<noteq> CHR ''t'' \<and> c \<noteq> CHR ''f'' \<and> c \<noteq> dquote
     \<and> c \<noteq> CHR ''['' \<and> c \<noteq> CHR ''{'' \<and> c \<noteq> CHR '']'' \<and> c \<noteq> CHR ''}''"
  by (auto simp: isDigit_def dquote_def Let_def)

lemma showInt_start:
  "\<exists>c t. showInt i = c # t \<and> (c = CHR ''-'' \<or> isDigit c)"
proof (cases "i < 0")
  case True
  then show ?thesis by (simp add: showInt_def)
next
  case False
  obtain c cs where sn: "showNat (nat i) = c # cs"
    using showNat_nonempty [of "nat i"] by (cases "showNat (nat i)") auto
  then have "isDigit c" using hd_showNat_digit [of "nat i"] by simp
  with sn False show ?thesis by (simp add: showInt_def)
qed

lemma serializeJSON_start:
  "\<exists>c t. serializeJSON d v = c # t \<and> valueStart c"
proof (cases v)
  case (JNum i)
  obtain c t where ct: "showInt i = c # t" "c = CHR ''-'' \<or> isDigit c"
    using showInt_start by blast
  then have "valueStart c"
    using digit_not_ws [of c] digit_literals [of c]
    by (auto simp: valueStart_def isWs_def)
  with ct JNum show ?thesis by simp
qed (auto simp: valueStart_def isWs_def quoteJSONString_def dquote_def)

lemma joinWith_Cons:
  "ys \<noteq> [] \<Longrightarrow> joinWith sep (x # ys) = x @ sep @ joinWith sep ys"
  by (cases ys) simp_all

lemma foldr_max_ge: "x \<in> set ns \<Longrightarrow> x \<le> foldr max ns (0::nat)"
  by (induction ns) auto


lemma roundTripsD:
  "roundTrips d x \<Longrightarrow> need x \<le> fuel \<Longrightarrow> list_all isWs pre \<Longrightarrow> okRest after \<Longrightarrow>
     parseValue fuel (pre @ serializeJSON d x @ after) = Some (x, after)"
  by (simp add: roundTrips_def)

lemma okRest_comma: "okRest (CHR '','' # t)"
  by (simp add: okRest_def isDigit_def)

lemma okRest_newline: "okRest (newline # t)"
  by (simp add: okRest_def isDigit_def newline_def)

lemma skipWs_close:
  "\<not> isWs c \<Longrightarrow> skipWs (newline # indentBy d @ c # t) = c # t"
  using skipWs_prefix [OF isWs_indent, of c d t] by simp

lemma elements_roundtrip:
  assumes "xs \<noteq> []" and "\<forall>x\<in>set xs. roundTrips (Suc d) x" and "length xs + m \<le> fuel"
    and "\<forall>x\<in>set xs. need x \<le> m" and "list_all isWs pre"
  shows "parseElements fuel
           (pre @ joinWith (CHR '','' # newline # indentBy (Suc d)) (map (serializeJSON (Suc d)) xs)
              @ newline # indentBy d @ CHR '']'' # rest)
         = Some (xs, rest)"
  using assms
proof (induction xs arbitrary: fuel pre rule: list_nonempty_induct)
  case (single x)
  then obtain f where f: "fuel = Suc f" by (cases fuel) auto
  have nx: "need x \<le> f" using single f by simp
  have rt: "roundTrips (Suc d) x" using single by simp
  have "parseValue f (pre @ serializeJSON (Suc d) x @ newline # indentBy d @ CHR '']'' # rest)
      = Some (x, newline # indentBy d @ CHR '']'' # rest)"
    using roundTripsD [OF rt nx single(4) okRest_newline] .
  moreover have "skipWs (newline # indentBy d @ CHR '']'' # rest) = CHR '']'' # rest"
    by (rule skipWs_close) (simp add: isWs_def)
  ultimately show ?case
    unfolding f by simp
next
  case (cons x ys)
  then obtain f where f: "fuel = Suc f" by (cases fuel) auto
  define rest1 where "rest1 = (newline # indentBy (Suc d))
      @ joinWith (CHR '','' # newline # indentBy (Suc d)) (map (serializeJSON (Suc d)) ys)
      @ newline # indentBy d @ CHR '']'' # rest"
  have nx: "need x \<le> f" using cons.prems f by simp
  have rt: "roundTrips (Suc d) x" using cons.prems by simp
  have shape: "pre @ joinWith (CHR '','' # newline # indentBy (Suc d))
        (map (serializeJSON (Suc d)) (x # ys)) @ newline # indentBy d @ CHR '']'' # rest
      = pre @ serializeJSON (Suc d) x @ CHR '','' # rest1"
    using cons.hyps by (simp add: joinWith_Cons rest1_def)
  have first: "parseValue f (pre @ serializeJSON (Suc d) x @ CHR '','' # rest1)
      = Some (x, CHR '','' # rest1)"
    using roundTripsD [OF rt nx cons.prems(4) okRest_comma] .
  have comma: "skipWs (CHR '','' # rest1) = CHR '','' # rest1"
    by (rule skipWs_nonws) (simp add: isWs_def)
  have others: "parseElements f rest1 = Some (ys, rest)"
    unfolding rest1_def
    using cons.prems f isWs_indent [of "Suc d"] by (intro cons.IH) simp_all
  show ?case
    unfolding f shape by (simp add: first comma others)
qed


lemma member_roundtrip:
  assumes rt: "roundTrips (Suc d) v" and nv: "need v \<le> f" and ws: "list_all isWs pre"
    and ok: "okRest after"
  shows "skipWs (pre @ memberText (Suc d) (k, v) @ after)
           = dquote # concat (map quoteChar k) @ dquote # CHR '':'' # CHR '' '' # serializeJSON (Suc d) v @ after"
    and "parseChars (concat (map quoteChar k) @ dquote # CHR '':'' # CHR '' '' # serializeJSON (Suc d) v @ after)
           = Some (k, CHR '':'' # CHR '' '' # serializeJSON (Suc d) v @ after)"
    and "skipWs (CHR '':'' # CHR '' '' # serializeJSON (Suc d) v @ after)
           = CHR '':'' # CHR '' '' # serializeJSON (Suc d) v @ after"
    and "parseValue f (CHR '' '' # serializeJSON (Suc d) v @ after) = Some (v, after)"
proof -
  have "\<not> isWs dquote" by (simp add: isWs_def dquote_def)
  then show "skipWs (pre @ memberText (Suc d) (k, v) @ after)
           = dquote # concat (map quoteChar k) @ dquote # CHR '':'' # CHR '' '' # serializeJSON (Suc d) v @ after"
    using skipWs_prefix [OF ws, of dquote] by (simp add: memberText_def quoteJSONString_def)
  show "parseChars (concat (map quoteChar k) @ dquote # CHR '':'' # CHR '' '' # serializeJSON (Suc d) v @ after)
           = Some (k, CHR '':'' # CHR '' '' # serializeJSON (Suc d) v @ after)"
    by (rule parseChars_quoted)
  show "skipWs (CHR '':'' # CHR '' '' # serializeJSON (Suc d) v @ after)
           = CHR '':'' # CHR '' '' # serializeJSON (Suc d) v @ after"
    by (rule skipWs_nonws) (simp add: isWs_def)
  have "list_all isWs [CHR '' '']" by (simp add: isWs_def)
  from roundTripsD [OF rt nv this ok]
  show "parseValue f (CHR '' '' # serializeJSON (Suc d) v @ after) = Some (v, after)" by simp
qed

lemma members_roundtrip:
  assumes "kvs \<noteq> []" and "\<forall>kv\<in>set kvs. roundTrips (Suc d) (snd kv)" and "length kvs + m \<le> fuel"
    and "\<forall>kv\<in>set kvs. need (snd kv) \<le> m" and "list_all isWs pre"
  shows "parseMembers fuel
           (pre @ joinWith (CHR '','' # newline # indentBy (Suc d)) (map (memberText (Suc d)) kvs)
              @ newline # indentBy d @ CHR ''}'' # rest)
         = Some (kvs, rest)"
  using assms
proof (induction kvs arbitrary: fuel pre rule: list_nonempty_induct)
  case (single kv)
  obtain k v where kv: "kv = (k, v)" by (cases kv)
  from single obtain f where f: "fuel = Suc f" by (cases fuel) auto
  define after where "after = newline # indentBy d @ CHR ''}'' # rest"
  have nv: "need v \<le> f" using single f kv by simp
  have rt: "roundTrips (Suc d) v" using single kv by simp
  have ok: "okRest after" unfolding after_def by (rule okRest_newline)
  note steps = member_roundtrip [OF rt nv single(4) ok]
  have close: "skipWs after = CHR ''}'' # rest"
    unfolding after_def by (rule skipWs_close) (simp add: isWs_def)
  have shape: "pre @ joinWith (CHR '','' # newline # indentBy (Suc d)) (map (memberText (Suc d)) [(k, v)])
        @ newline # indentBy d @ CHR ''}'' # rest
      = pre @ memberText (Suc d) (k, v) @ after"
    by (simp add: after_def)
  show ?case
    unfolding f shape kv by (simp add: steps close)
next
  case (cons kv kvs)
  obtain k v where kv: "kv = (k, v)" by (cases kv)
  from cons obtain f where f: "fuel = Suc f" by (cases fuel) auto
  define rest1 where "rest1 = (newline # indentBy (Suc d))
      @ joinWith (CHR '','' # newline # indentBy (Suc d)) (map (memberText (Suc d)) kvs)
      @ newline # indentBy d @ CHR ''}'' # rest"
  define after where "after = CHR '','' # rest1"
  have nv: "need v \<le> f" using cons.prems f kv by simp
  have rt: "roundTrips (Suc d) v" using cons.prems kv by simp
  have ok: "okRest after" unfolding after_def by (rule okRest_comma)
  note steps = member_roundtrip [OF rt nv cons.prems(4) ok]
  have comma: "skipWs after = CHR '','' # rest1"
    unfolding after_def by (rule skipWs_nonws) (simp add: isWs_def)
  have others: "parseMembers f rest1 = Some (kvs, rest)"
    unfolding rest1_def
    using cons.prems f isWs_indent [of "Suc d"] by (intro cons.IH) simp_all
  have shape: "pre @ joinWith (CHR '','' # newline # indentBy (Suc d))
        (map (memberText (Suc d)) ((k, v) # kvs)) @ newline # indentBy d @ CHR ''}'' # rest
      = pre @ memberText (Suc d) (k, v) @ after"
    using cons.hyps by (simp add: joinWith_Cons rest1_def after_def)
  show ?case
    unfolding f shape kv by (simp add: steps comma others)
qed


lemma serializeJSON_JObj:
  "serializeJSON d (JObj kvs) =
     (if kvs = [] then ''{}''
      else ''{'' @ [newline] @ indentBy (Suc d)
           @ joinWith (CHR '','' # newline # indentBy (Suc d)) (map (memberText (Suc d)) kvs)
           @ [newline] @ indentBy d @ ''}'')"
proof -
  have eq: "(\<lambda>(k, v). quoteJSONString k @ '': '' @ serializeJSON (Suc d) v) = memberText (Suc d)"
    by (auto simp: memberText_def fun_eq_iff)
  show ?thesis
    unfolding serializeJSON.simps eq by simp
qed

lemma atom_roundtrip:
  assumes ws: "list_all isWs pre" and start: "\<not> isWs c"
  shows "parseValue (Suc f) (pre @ c # t) = 
     (if c = CHR ''n'' then (if startsWith t ''ull'' then Some (JNull, drop 3 t) else None)
      else if c = CHR ''t'' then (if startsWith t ''rue'' then Some (JBool True, drop 3 t) else None)
      else if c = CHR ''f'' then (if startsWith t ''alse'' then Some (JBool False, drop 4 t) else None)
      else if c = dquote then
        (case parseChars t of None \<Rightarrow> None | Some (str, rest) \<Rightarrow> Some (JStr str, rest))
      else if c = CHR ''['' then
        (case skipWs t of
           [] \<Rightarrow> None
         | e # es \<Rightarrow>
             if e = CHR '']'' then Some (JArr [], es)
             else (case parseElements f (e # es) of
                     None \<Rightarrow> None
                   | Some (xs, rest) \<Rightarrow> Some (JArr xs, rest)))
      else if c = CHR ''{'' then
        (case skipWs t of
           [] \<Rightarrow> None
         | e # es \<Rightarrow>
             if e = CHR ''}'' then Some (JObj [], es)
             else (case parseMembers f (e # es) of
                     None \<Rightarrow> None
                   | Some (kvs, rest) \<Rightarrow> Some (JObj kvs, rest)))
      else parseNumber (c # t))"
  using skipWs_prefix [OF ws start, of t] by simp

lemma roundTrips_all: "roundTrips d v"
proof (induction v arbitrary: d)
  case JNull
  show ?case
    unfolding roundTrips_def
  proof (intro allI impI)
    fix fuel pre after
    assume "need JNull \<le> fuel" and ws: "list_all isWs pre"
    then obtain f where f: "fuel = Suc f" by (cases fuel) auto
    have "parseValue (Suc f) (pre @ CHR ''n'' # (''ull'' @ after)) = Some (JNull, after)"
      by (subst atom_roundtrip [OF ws]) (simp_all add: isWs_def)
    then show "parseValue fuel (pre @ serializeJSON d JNull @ after) = Some (JNull, after)"
      unfolding f by simp
  qed
next
  case (JBool b)
  show ?case
    unfolding roundTrips_def
  proof (intro allI impI)
    fix fuel pre after
    assume "need (JBool b) \<le> fuel" and ws: "list_all isWs pre"
    then obtain f where f: "fuel = Suc f" by (cases fuel) auto
    have t: "parseValue (Suc f) (pre @ CHR ''t'' # (''rue'' @ after)) = Some (JBool True, after)"
      by (subst atom_roundtrip [OF ws]) (simp_all add: isWs_def)
    have ff: "parseValue (Suc f) (pre @ CHR ''f'' # (''alse'' @ after)) = Some (JBool False, after)"
      by (subst atom_roundtrip [OF ws]) (simp_all add: isWs_def)
    show "parseValue fuel (pre @ serializeJSON d (JBool b) @ after) = Some (JBool b, after)"
      unfolding f using t ff by (cases b) simp_all
  qed
next
  case (JNum i)
  show ?case
    unfolding roundTrips_def
  proof (intro allI impI)
    fix fuel pre after
    assume "need (JNum i) \<le> fuel" and ws: "list_all isWs pre" and ok: "okRest after"
    then obtain f where f: "fuel = Suc f" by (cases fuel) auto
    obtain c t where ct: "showInt i = c # t" "c = CHR ''-'' \<or> isDigit c"
      using showInt_start by blast
    have nows: "\<not> isWs c"
      using ct(2) digit_not_ws [of c] by (auto simp: isWs_def)
    have lits: "c \<noteq> CHR ''n''" "c \<noteq> CHR ''t''" "c \<noteq> CHR ''f''" "c \<noteq> dquote"
      "c \<noteq> CHR ''[''" "c \<noteq> CHR ''{''"
      using ct(2) digit_literals [of c] by (auto simp: dquote_def)
    have "parseValue (Suc f) (pre @ c # (t @ after)) = parseNumber (c # (t @ after))"
      by (subst atom_roundtrip [OF ws nows]) (simp add: lits)
    also have "\<dots> = parseNumber (showInt i @ after)" by (simp add: ct(1))
    also have "\<dots> = Some (JNum i, after)" by (rule parseNumber_showInt [OF ok])
    finally show "parseValue fuel (pre @ serializeJSON d (JNum i) @ after) = Some (JNum i, after)"
      unfolding f by (simp add: ct(1))
  qed
next
  case (JStr str)
  show ?case
    unfolding roundTrips_def
  proof (intro allI impI)
    fix fuel pre after
    assume "need (JStr str) \<le> fuel" and ws: "list_all isWs pre"
    then obtain f where f: "fuel = Suc f" by (cases fuel) auto
    have "parseValue (Suc f) (pre @ dquote # (concat (map quoteChar str) @ dquote # after))
        = Some (JStr str, after)"
      by (subst atom_roundtrip [OF ws]) (simp_all add: isWs_def dquote_def [symmetric] parseChars_quoted,
          simp_all add: dquote_def)
    then show "parseValue fuel (pre @ serializeJSON d (JStr str) @ after) = Some (JStr str, after)"
      unfolding f by (simp add: quoteJSONString_def)
  qed
next
  case (JArr xs)
  show ?case
    unfolding roundTrips_def
  proof (intro allI impI)
    fix fuel pre after
    assume need: "need (JArr xs) \<le> fuel" and ws: "list_all isWs pre"
    then obtain f where f: "fuel = Suc f" by (cases fuel) auto
    have bracket: "\<not> isWs (CHR ''['')" "CHR ''['' \<noteq> dquote" by (simp_all add: isWs_def dquote_def)
    show "parseValue fuel (pre @ serializeJSON d (JArr xs) @ after) = Some (JArr xs, after)"
    proof (cases "xs = []")
      case True
      have "parseValue (Suc f) (pre @ CHR ''['' # (CHR '']'' # after)) = Some (JArr [], after)"
        by (subst atom_roundtrip [OF ws bracket(1)]) (simp add: bracket skipWs_nonws isWs_def)
      then show ?thesis unfolding f using True by simp
    next
      case False
      define body where "body = joinWith (CHR '','' # newline # indentBy (Suc d))
          (map (serializeJSON (Suc d)) xs) @ newline # indentBy d @ CHR '']'' # after"
      obtain x ys where xs: "xs = x # ys" using False by (cases xs) auto
      obtain c t where ct: "serializeJSON (Suc d) x = c # t" "valueStart c"
        using serializeJSON_start by blast
      have "joinWith (CHR '','' # newline # indentBy (Suc d)) (map (serializeJSON (Suc d)) (x # ys))
          = c # t @ (case ys of [] \<Rightarrow> [] | _ \<Rightarrow> (CHR '','' # newline # indentBy (Suc d))
              @ joinWith (CHR '','' # newline # indentBy (Suc d)) (map (serializeJSON (Suc d)) ys))"
        using ct(1) by (cases ys) simp_all
      then obtain body' where body': "body = c # body'"
        unfolding body_def xs by simp
      have skip: "skipWs (newline # indentBy (Suc d) @ body) = c # body'"
        unfolding body' using ct(2) by (intro skipWs_close) (simp add: valueStart_def)
      have bound: "\<forall>x\<in>set xs. need x \<le> foldr max (map need xs) 0"
        by (simp add: foldr_max_ge)
      have fuel': "length xs + foldr max (map need xs) 0 \<le> f"
        using need f by simp
      have all: "\<forall>x\<in>set xs. roundTrips (Suc d) x"
        using JArr by blast
      have elems: "parseElements f ([] @ body) = Some (xs, after)"
        unfolding body_def by (rule elements_roundtrip [OF False all fuel' bound]) simp
      have "parseValue (Suc f) (pre @ CHR ''['' # (newline # indentBy (Suc d) @ body))
          = Some (JArr xs, after)"
        using elems ct(2) unfolding body'
        by (subst atom_roundtrip [OF ws bracket(1)])
          (simp add: bracket skip [unfolded body'] valueStart_def)
      then show ?thesis
        unfolding f using False by (simp add: body_def)
    qed
  qed
next
  case (JObj kvs)
  show ?case
    unfolding roundTrips_def
  proof (intro allI impI)
    fix fuel pre after
    assume need: "need (JObj kvs) \<le> fuel" and ws: "list_all isWs pre"
    then obtain f where f: "fuel = Suc f" by (cases fuel) auto
    have brace: "\<not> isWs (CHR ''{'')" "CHR ''{'' \<noteq> dquote" by (simp_all add: isWs_def dquote_def)
    show "parseValue fuel (pre @ serializeJSON d (JObj kvs) @ after) = Some (JObj kvs, after)"
    proof (cases "kvs = []")
      case True
      have "parseValue (Suc f) (pre @ CHR ''{'' # (CHR ''}'' # after)) = Some (JObj [], after)"
        by (subst atom_roundtrip [OF ws brace(1)]) (simp add: brace skipWs_nonws isWs_def)
      then show ?thesis unfolding f using True by simp
    next
      case False
      define body where "body = joinWith (CHR '','' # newline # indentBy (Suc d))
          (map (memberText (Suc d)) kvs) @ newline # indentBy d @ CHR ''}'' # after"
      obtain kv rest where kvs: "kvs = kv # rest" using False by (cases kvs) auto
      obtain k v where kv: "kv = (k, v)" by (cases kv)
      have "joinWith (CHR '','' # newline # indentBy (Suc d)) (map (memberText (Suc d)) (kv # rest))
          = dquote # concat (map quoteChar k) @ dquote # '': '' @ serializeJSON (Suc d) v
              @ (case rest of [] \<Rightarrow> [] | _ \<Rightarrow> (CHR '','' # newline # indentBy (Suc d))
              @ joinWith (CHR '','' # newline # indentBy (Suc d)) (map (memberText (Suc d)) rest))"
        by (cases rest) (simp_all add: kv memberText_def quoteJSONString_def)
      then obtain body' where body': "body = dquote # body'"
        unfolding body_def kvs by simp
      have dq: "\<not> isWs dquote" "dquote \<noteq> CHR ''}''" by (simp_all add: isWs_def dquote_def)
      have skip: "skipWs (newline # indentBy (Suc d) @ body) = dquote # body'"
        unfolding body' using dq by (intro skipWs_close)
      have bound: "\<forall>kv\<in>set kvs. need (snd kv) \<le> foldr max (map (\<lambda>(k, v). need v) kvs) 0"
      proof
        fix kv assume "kv \<in> set kvs"
        then have "need (snd kv) \<in> set (map (\<lambda>(k, v). need v) kvs)"
          by (force simp: split_def)
        then show "need (snd kv) \<le> foldr max (map (\<lambda>(k, v). need v) kvs) 0"
          by (rule foldr_max_ge)
      qed
      have fuel': "length kvs + foldr max (map (\<lambda>(k, v). need v) kvs) 0 \<le> f"
        using need f by simp
      have all: "\<forall>kv\<in>set kvs. roundTrips (Suc d) (snd kv)"
      proof
        fix kv assume in_kvs: "kv \<in> set kvs"
        have "snd kv \<in> Basic_BNFs.snds kv" by (cases kv) simp
        with in_kvs show "roundTrips (Suc d) (snd kv)" by (rule JObj)
      qed
      have mems: "parseMembers f ([] @ body) = Some (kvs, after)"
        unfolding body_def by (rule members_roundtrip [OF False all fuel' bound]) simp
      have "parseValue (Suc f) (pre @ CHR ''{'' # (newline # indentBy (Suc d) @ body))
          = Some (JObj kvs, after)"
        using mems dq unfolding body'
        by (subst atom_roundtrip [OF ws brace(1)]) (simp add: brace skip [unfolded body'])
      then show ?thesis
        unfolding f using False by (simp add: body_def serializeJSON_JObj del: serializeJSON.simps)
    qed
  qed
qed


lemma parseJSON_serializeJSON:
  "need v \<le> fuel \<Longrightarrow> parseJSON fuel (serializeJSON 0 v) = Some v"
proof -
  assume "need v \<le> fuel"
  then have "parseValue fuel ([] @ serializeJSON 0 v @ []) = Some (v, [])"
    using roundTrips_all [of 0 v] by (intro roundTripsD) (simp_all add: okRest_def)
  then show ?thesis
    by (simp add: parseJSON_def skipWs_def)
qed

lemma readEntry_exportEntry:
  "readEntry (exportEntry valueOf r) = Some (uri r, cid r, valueOf r)"
  by (simp add: readEntry_def exportEntry_def split: option.splits)

lemma importEntries_export:
  assumes "need (JArr (map (exportEntry valueOf) records)) \<le> fuel"
  shows "importEntries fuel (serializeJSON 0 (JArr (map (exportEntry valueOf) records)))
     = Some (map (\<lambda>r. (uri r, cid r, valueOf r)) records)"
  using parseJSON_serializeJSON [OF assms]
  by (simp add: importEntries_def readEntry_exportEntry list_all_iff comp_def)

text \<open>
  C9. For every list of records and every value document of theirs, the JSON text of the
  exported array, parsed again with enough fuel, is the exported array, and its entries
  read back as the uri, the cid and the value of the records, in order. \<open>exportPosts\<close>
  writes this text whenever there is a record; \<open>handleExport\<close> writes the text of the
  cache rearranged by the sort, and that text reads back as the rearranged entries.
\<close>

theorem export_roundtrip:
  "need (exportData valueOf records) \<le> fuel \<longrightarrow>
     parseJSON fuel (serializeJSON 0 (exportData valueOf records)) = Some (exportData valueOf records)
     \<and> importEntries fuel (serializeJSON 0 (exportData valueOf records))
         = Some (map (\<lambda>r. (uri r, cid r, valueOf r)) records)
     \<and> (records \<noteq> [] \<longrightarrow>
         exportPosts valueOf records = Some (serializeJSON 0 (exportData valueOf records)))
     \<and> (records = fetchedPostsCache s \<and> records \<noteq> [] \<longrightarrow>
         (\<exists>sorted. mset sorted = mset records
            \<and> handleExport newDate valueOf s = Some (serializeJSON 0 (exportData valueOf sorted))
            \<and> (need (exportData valueOf sorted) \<le> fuel' \<longrightarrow>
                 importEntries fuel' (serializeJSON 0 (exportData valueOf sorted))
                   = Some (map (\<lambda>r. (uri r, cid r, valueOf r)) sorted))))"
proof (intro impI conjI)
  assume fuel: "need (exportData valueOf records) \<le> fuel"
  show "parseJSON fuel (serializeJSON 0 (exportData valueOf records)) = Some (exportData valueOf records)"
    using fuel by (rule parseJSON_serializeJSON)
  show "importEntries fuel (serializeJSON 0 (exportData valueOf records))
         = Some (map (\<lambda>r. (uri r, cid r, valueOf r)) records)"
    using fuel unfolding exportData_def by (rule importEntries_export)
  show "exportPosts valueOf records = Some (serializeJSON 0 (exportData valueOf records))"
    if "records \<noteq> []"
    using that by (simp add: exportPosts_def)
  assume cache: "records = fetchedPostsCache s \<and> records \<noteq> []"
  define sorted where "sorted = getFilteredAndSortedPosts newDate records [] [] (sortOrder s)"
  have "mset sorted = mset records"
    unfolding sorted_def
    by (simp add: getFilteredAndSortedPosts_def mset_jsSort filteredPosts_def)
  moreover have "handleExport newDate valueOf s = Some (serializeJSON 0 (exportData valueOf sorted))"
  proof -
    from cache have "fetchedPostsCache s = records" and "records \<noteq> []" by auto
    then show ?thesis
      by (simp add: handleExport_def triggerJsonExport_def exportData_def sorted_def Let_def)
  qed
  moreover have "need (exportData valueOf sorted) \<le> fuel' \<longrightarrow>
      importEntries fuel' (serializeJSON 0 (exportData valueOf sorted))
        = Some (map (\<lambda>r. (uri r, cid r, valueOf r)) sorted)"
    unfolding exportData_def using importEntries_export by blast
  ultimately show "\<exists>sorted. mset sorted = mset records
      \<and> handleExport newDate valueOf s = Some (serializeJSON 0 (exportData valueOf sorted))
      \<and> (need (exportData valueOf sorted) \<le> fuel' \<longrightarrow>
           importEntries fuel' (serializeJSON 0 (exportData valueOf sorted))
             = Some (map (\<lambda>r. (uri r, cid r, valueOf r)) sorted))"
    by blast
qed


theorem export_roundtrip_witness:
  "need (exportData sampleDocument [recTech, recA]) \<le> 12
   \<and> importEntries 12 (serializeJSON 0 (exportData sampleDocument [recTech, recA]))
       = Some [(''at://t'', ''c3'', Some (JObj [(''title'', JStr ''T''),
                  (''category'', JStr ''  Tech ''), (''recommended'', JBool True)])),
               (''at://a'', ''c1'', Some (JObj [(''title'', JStr ''T'')]))]
   \<and> exportPosts sampleDocument [recTech, recA]
       = Some (serializeJSON 0 (exportData sampleDocument [recTech, recA]))"
proof -
  have enough: "need (exportData sampleDocument [recTech, recA]) \<le> 12"
    by code_simp
  have entries: "map (\<lambda>r. (uri r, cid r, sampleDocument r)) [recTech, recA]
      = [(''at://t'', ''c3'', Some (JObj [(''title'', JStr ''T''),
            (''category'', JStr ''  Tech ''), (''recommended'', JBool True)])),
         (''at://a'', ''c1'', Some (JObj [(''title'', JStr ''T'')]))]"
    by code_simp
  have some: "[recTech, recA] \<noteq> []" by simp
  from export_roundtrip [of sampleDocument "[recTech, recA]" 12 initialState scenarioDate 12]
    enough some
  have "importEntries 12 (serializeJSON 0 (exportData sampleDocument [recTech, recA]))
       = Some (map (\<lambda>r. (uri r, cid r, sampleDocument r)) [recTech, recA])"
    and "exportPosts sampleDocument [recTech, recA]
       = Some (serializeJSON 0 (exportData sampleDocument [recTech, recA]))"
    by blast+
  with enough entries show ?thesis by simp
qed

text \<open>The text of a small export, and a string with characters that are escaped.\<close>

lemma export_text_example:
  "exportPosts sampleDocument [recA]
     = Some (''['' @ [newline] @ ''  {'' @ [newline]
         @ ''    '' @ [dquote] @ ''uri'' @ [dquote] @ '': '' @ [dquote] @ ''at://a'' @ [dquote] @ '','' @ [newline]
         @ ''    '' @ [dquote] @ ''cid'' @ [dquote] @ '': '' @ [dquote] @ ''c1'' @ [dquote] @ '','' @ [newline]
         @ ''    '' @ [dquote] @ ''value'' @ [dquote] @ '': {'' @ [newline]
         @ ''      '' @ [dquote] @ ''title'' @ [dquote] @ '': '' @ [dquote] @ ''T'' @ [dquote] @ [newline]
         @ ''    }'' @ [newline] @ ''  }'' @ [newline] @ '']'')
   \<and> quoteJSONString [CHR ''a'', dquote, bslash, newline, CHR 0x01]
       = [dquote, CHR ''a'', bslash, dquote, bslash, bslash, bslash, CHR ''n'',
          bslash, CHR ''u'', CHR ''0'', CHR ''0'', CHR ''0'', CHR ''1'', dquote]"
  by code_simp

end
